theory Spec2Isabelle
  imports Main "HOL-Library.Word"
begin

section \<open>The memory model\<close>

text \<open>
  The container of \<^verbatim>\<open>list.h\<close> is a chain of heap cells reached through raw
  pointers, so the embedding carries an explicit store. A pointer is a 64-bit word and
  the null pointer is the word 0. A \<^verbatim>\<open>Node\<close> is a cell with the three members of
  the class; a \<^verbatim>\<open>list\<close> object is the triple of its data members (the
  allocator member \<^verbatim>\<open>alloc\<close> is stored and never read by any member function, so it
  is left out). List objects are named by natural numbers, which is what the
  self-assignment test \<^verbatim>\<open>this != &rhs\<close> compares.
\<close>

type_synonym ptr = "64 word"
type_synonym size_t = "64 word"
type_synonym iterator = ptr

record 'a Node =
  data :: 'a
  pNext :: ptr
  pPrev :: ptr

record list_obj =
  numElements :: size_t
  pHead :: ptr
  pTail :: ptr

text \<open>
  \<^verbatim>\<open>BadAlloc\<close> is the exception of \<^verbatim>\<open>new\<close>; \<^verbatim>\<open>Fault\<close> stands for every access the
  language leaves undefined: reading or writing through a null or dangling pointer, and
  deleting a cell that is not live.
\<close>

datatype error = BadAlloc | Fault

text \<open>
  The store: the live nodes, the live stand-alone objects of the element type (only
  \<^verbatim>\<open>front\<close> and \<^verbatim>\<open>back\<close> create those), the list objects, and the address the
  allocator hands out next.
\<close>

record 'a state =
  nodes :: "ptr \<rightharpoonup> 'a Node"
  objs :: "ptr \<rightharpoonup> 'a"
  lists :: "nat \<Rightarrow> list_obj"
  next_free :: ptr

text \<open>A reference to an element: the data member of a node, or a stand-alone object.\<close>

datatype reference = DataOf ptr | ObjAt ptr

definition seq :: "error + 'a \<Rightarrow> ('a \<Rightarrow> error + 'b) \<Rightarrow> error + 'b" where
  "seq m f = (case m of Inl e \<Rightarrow> Inl e | Inr x \<Rightarrow> f x)"

lemma seq_Inr [simp]: "seq (Inr x) f = f x"
  by (simp add: seq_def)

lemma seq_Inl [simp]: "seq (Inl e) f = Inl e"
  by (simp add: seq_def)

lemma seq_cong [fundef_cong]:
  "m = m' \<Longrightarrow> (\<And>x. m' = Inr x \<Longrightarrow> f x = f' x) \<Longrightarrow> seq m f = seq m' f'"
  by (auto simp: seq_def split: sum.splits)

definition get_node :: "'a state \<Rightarrow> ptr \<Rightarrow> error + 'a Node" where
  "get_node s p =
     (if p = 0 then Inl Fault
      else case nodes s p of None \<Rightarrow> Inl Fault | Some nd \<Rightarrow> Inr nd)"

definition set_pNext :: "ptr \<Rightarrow> ptr \<Rightarrow> 'a state \<Rightarrow> error + 'a state" where
  "set_pNext p q s =
     seq (get_node s p) (\<lambda>nd. Inr (s\<lparr>nodes := (nodes s)(p \<mapsto> nd\<lparr>pNext := q\<rparr>)\<rparr>))"

definition set_pPrev :: "ptr \<Rightarrow> ptr \<Rightarrow> 'a state \<Rightarrow> error + 'a state" where
  "set_pPrev p q s =
     seq (get_node s p) (\<lambda>nd. Inr (s\<lparr>nodes := (nodes s)(p \<mapsto> nd\<lparr>pPrev := q\<rparr>)\<rparr>))"

text \<open>
  \<^verbatim>\<open>new Node(data)\<close>: the allocator hands out \<open>next_free\<close>; it throws when the address
  space is used up (the counter has wrapped to the null address) or the cell is taken.
  The constructor of \<^verbatim>\<open>Node\<close> sets both links to null.
\<close>

definition new_Node :: "'a \<Rightarrow> 'a state \<Rightarrow> error + (ptr \<times> 'a state)" where
  "new_Node v s =
     (let a = next_free s in
      if a = 0 \<or> nodes s a \<noteq> None \<or> objs s a \<noteq> None then Inl BadAlloc
      else Inr (a, s\<lparr>nodes := (nodes s)(a \<mapsto> \<lparr>data = v, pNext = 0, pPrev = 0\<rparr>),
                     next_free := a + 1\<rparr>))"

text \<open>\<^verbatim>\<open>new T\<close>, with \<open>d\<close> the value a default-initialised element holds.\<close>

definition new_T :: "'a \<Rightarrow> 'a state \<Rightarrow> error + (ptr \<times> 'a state)" where
  "new_T d s =
     (let a = next_free s in
      if a = 0 \<or> nodes s a \<noteq> None \<or> objs s a \<noteq> None then Inl BadAlloc
      else Inr (a, s\<lparr>objs := (objs s)(a \<mapsto> d), next_free := a + 1\<rparr>))"

text \<open>\<^verbatim>\<open>delete p\<close>: nothing for the null pointer, a fault for a cell that is not live.\<close>

definition delete_Node :: "ptr \<Rightarrow> 'a state \<Rightarrow> error + 'a state" where
  "delete_Node p s =
     (if p = 0 then Inr s
      else if nodes s p = None then Inl Fault
      else Inr (s\<lparr>nodes := (nodes s)(p := None)\<rparr>))"

definition set_pHead :: "nat \<Rightarrow> ptr \<Rightarrow> 'a state \<Rightarrow> 'a state" where
  "set_pHead this p s = s\<lparr>lists := (lists s)(this := (lists s this)\<lparr>pHead := p\<rparr>)\<rparr>"

definition set_pTail :: "nat \<Rightarrow> ptr \<Rightarrow> 'a state \<Rightarrow> 'a state" where
  "set_pTail this p s = s\<lparr>lists := (lists s)(this := (lists s this)\<lparr>pTail := p\<rparr>)\<rparr>"

definition set_numElements :: "nat \<Rightarrow> size_t \<Rightarrow> 'a state \<Rightarrow> 'a state" where
  "set_numElements this n s =
     s\<lparr>lists := (lists s)(this := (lists s this)\<lparr>numElements := n\<rparr>)\<rparr>"

section \<open>Status and iterators\<close>

definition empty :: "nat \<Rightarrow> 'a state \<Rightarrow> bool" where
  "empty this s = (pHead (lists s this) = 0)"

definition size_of :: "nat \<Rightarrow> 'a state \<Rightarrow> size_t" where
  "size_of this s = numElements (lists s this)"

definition begin_it :: "nat \<Rightarrow> 'a state \<Rightarrow> iterator" where
  "begin_it this s = pHead (lists s this)"

definition rbegin_it :: "nat \<Rightarrow> 'a state \<Rightarrow> iterator" where
  "rbegin_it this s = pTail (lists s this)"

definition end_it :: iterator where
  "end_it = 0"

text \<open>The iterator's \<^verbatim>\<open>operator*\<close>, \<^verbatim>\<open>operator++\<close> and \<^verbatim>\<open>operator--\<close>.\<close>

definition it_deref :: "'a state \<Rightarrow> iterator \<Rightarrow> error + 'a" where
  "it_deref s p = seq (get_node s p) (\<lambda>nd. Inr (data nd))"

definition it_incr :: "'a state \<Rightarrow> iterator \<Rightarrow> error + iterator" where
  "it_incr s p = seq (get_node s p) (\<lambda>nd. Inr (pNext nd))"

definition it_decr :: "'a state \<Rightarrow> iterator \<Rightarrow> error + iterator" where
  "it_decr s p = seq (get_node s p) (\<lambda>nd. Inr (pPrev nd))"

section \<open>Insertion\<close>

definition push_back :: "nat \<Rightarrow> 'a \<Rightarrow> 'a state \<Rightarrow> error + 'a state" where
  "push_back this v s =
     seq (new_Node v s) (\<lambda>(pNew, s).
       if pTail (lists s this) \<noteq> 0 then
         seq (set_pNext (pTail (lists s this)) pNew s) (\<lambda>s.
         seq (set_pPrev pNew (pTail (lists s this)) s) (\<lambda>s.
         Inr (set_numElements this (numElements (lists s this) + 1) (set_pTail this pNew s))))
       else
         Inr (set_numElements this (numElements (lists s this) + 1)
                (set_pHead this pNew (set_pTail this pNew s))))"

text \<open>
  The rvalue overloads of \<^verbatim>\<open>push_back\<close> and \<^verbatim>\<open>push_front\<close> have the body of the
  copying ones, with the element moved into the node; the moved-from temporary is the
  caller's and is not part of the store.
\<close>

definition push_back_move :: "nat \<Rightarrow> 'a \<Rightarrow> 'a state \<Rightarrow> error + 'a state" where
  "push_back_move this v s =
     seq (new_Node v s) (\<lambda>(pNew, s).
       if pTail (lists s this) \<noteq> 0 then
         seq (set_pNext (pTail (lists s this)) pNew s) (\<lambda>s.
         seq (set_pPrev pNew (pTail (lists s this)) s) (\<lambda>s.
         Inr (set_numElements this (numElements (lists s this) + 1) (set_pTail this pNew s))))
       else
         Inr (set_numElements this (numElements (lists s this) + 1)
                (set_pHead this pNew (set_pTail this pNew s))))"

definition push_front :: "nat \<Rightarrow> 'a \<Rightarrow> 'a state \<Rightarrow> error + 'a state" where
  "push_front this v s =
     seq (new_Node v s) (\<lambda>(pNew, s).
       if pHead (lists s this) \<noteq> 0 then
         seq (set_pPrev (pHead (lists s this)) pNew s) (\<lambda>s.
         seq (set_pNext pNew (pHead (lists s this)) s) (\<lambda>s.
         Inr (set_numElements this (numElements (lists s this) + 1) (set_pHead this pNew s))))
       else
         Inr (set_numElements this (numElements (lists s this) + 1)
                (set_pHead this pNew (set_pTail this pNew s))))"

definition push_front_move :: "nat \<Rightarrow> 'a \<Rightarrow> 'a state \<Rightarrow> error + 'a state" where
  "push_front_move this v s =
     seq (new_Node v s) (\<lambda>(pNew, s).
       if pHead (lists s this) \<noteq> 0 then
         seq (set_pPrev (pHead (lists s this)) pNew s) (\<lambda>s.
         seq (set_pNext pNew (pHead (lists s this)) s) (\<lambda>s.
         Inr (set_numElements this (numElements (lists s this) + 1) (set_pHead this pNew s))))
       else
         Inr (set_numElements this (numElements (lists s this) + 1)
                (set_pHead this pNew (set_pTail this pNew s))))"

text \<open>
  \<^verbatim>\<open>insert(it, const T&)\<close>. The three tested branches are kept in the source's order;
  the last \<^verbatim>\<open>else\<close> cannot be reached. The links of the new node are read back from
  the store where the source reads them back.
\<close>

definition insert_copy :: "nat \<Rightarrow> iterator \<Rightarrow> 'a \<Rightarrow> 'a state \<Rightarrow> error + (iterator \<times> 'a state)" where
  "insert_copy this it v s =
     seq (new_Node v s) (\<lambda>(pNew, s).
       if empty this s then
         (let s = set_numElements this 1 (set_pHead this pNew (set_pTail this pNew s))
          in Inr (begin_it this s, s))
       else if it = end_it then
         seq (set_pNext (pTail (lists s this)) pNew s) (\<lambda>s.
         seq (set_pPrev pNew (pTail (lists s this)) s) (\<lambda>s.
         Inr (pNew, set_numElements this (numElements (lists s this) + 1)
                      (set_pTail this pNew s))))
       else if it \<noteq> end_it then
         seq (get_node s it) (\<lambda>nit.
         seq (set_pPrev pNew (pPrev nit) s) (\<lambda>s.
         seq (set_pNext pNew it s) (\<lambda>s.
         seq (get_node s pNew) (\<lambda>nn.
         seq (if pPrev nn \<noteq> 0 then set_pNext (pPrev nn) pNew s
              else Inr (set_pHead this pNew s)) (\<lambda>s.
         seq (get_node s pNew) (\<lambda>nn.
         seq (if pNext nn \<noteq> 0 then set_pPrev (pNext nn) pNew s
              else Inr (set_pTail this pNew s)) (\<lambda>s.
         Inr (pNew, set_numElements this (numElements (lists s this) + 1) s))))))))
       else Inr (end_it, s))"

text \<open>\<^verbatim>\<open>insert(it, T&&)\<close>: the body is the single statement \<^verbatim>\<open>return end();\<close>.\<close>

definition insert_move :: "nat \<Rightarrow> iterator \<Rightarrow> 'a \<Rightarrow> 'a state \<Rightarrow> error + (iterator \<times> 'a state)" where
  "insert_move this it v s = Inr (end_it, s)"

section \<open>Removal\<close>

definition pop_back :: "nat \<Rightarrow> 'a state \<Rightarrow> error + 'a state" where
  "pop_back this s =
     (if pTail (lists s this) \<noteq> 0 then
        (let pDelete = pTail (lists s this) in
         seq (get_node s pDelete) (\<lambda>nd.
         let s = set_pTail this (pPrev nd) s in
         seq (if pTail (lists s this) \<noteq> 0 then set_pNext (pTail (lists s this)) 0 s
              else Inr (set_pHead this 0 s)) (\<lambda>s.
         seq (delete_Node pDelete s) (\<lambda>s.
         Inr (set_numElements this (numElements (lists s this) - 1) s)))))
      else Inr s)"

definition pop_front :: "nat \<Rightarrow> 'a state \<Rightarrow> error + 'a state" where
  "pop_front this s =
     (if pHead (lists s this) \<noteq> 0 then
        (let pDelete = pHead (lists s this) in
         seq (get_node s pDelete) (\<lambda>nd.
         let s = set_pHead this (pNext nd) s in
         seq (if pHead (lists s this) \<noteq> 0 then set_pPrev (pHead (lists s this)) 0 s
              else Inr (set_pTail this 0 s)) (\<lambda>s.
         seq (delete_Node pDelete s) (\<lambda>s.
         Inr (set_numElements this (numElements (lists s this) - 1) s)))))
      else Inr s)"

definition erase :: "nat \<Rightarrow> iterator \<Rightarrow> 'a state \<Rightarrow> error + (iterator \<times> 'a state)" where
  "erase this it s =
     (let pDelete = it in
      if pDelete = 0 then Inr (end_it, s)
      else
        seq (get_node s pDelete) (\<lambda>nd.
        seq (if pPrev nd \<noteq> 0 then set_pNext (pPrev nd) (pNext nd) s
             else Inr (set_pHead this (pNext nd) s)) (\<lambda>s.
        seq (get_node s pDelete) (\<lambda>nd.
        seq (if pNext nd \<noteq> 0 then set_pPrev (pNext nd) (pPrev nd) s
             else Inr (set_pTail this (pPrev nd) s)) (\<lambda>s.
        seq (get_node s pDelete) (\<lambda>nd.
        let next = pNext nd in
        seq (delete_Node pDelete s) (\<lambda>s.
        Inr (next, set_numElements this (numElements (lists s this) - 1) s))))))))"

text \<open>
  The loop of \<^verbatim>\<open>clear\<close>. Every round deletes a live node (or faults), so the number
  of live nodes is a measure.
\<close>

function clear_loop :: "nat \<Rightarrow> 'a state \<Rightarrow> error + 'a state" where
  "clear_loop this s =
     (if pHead (lists s this) \<noteq> 0 then
        (let pDelete = pHead (lists s this) in
         seq (get_node s pDelete) (\<lambda>nd.
         seq (delete_Node pDelete (set_pHead this (pNext nd) s)) (\<lambda>s.
         clear_loop this s)))
      else Inr s)"
  by pat_completeness auto
termination
proof (relation "measure (\<lambda>(this, s). card (dom (nodes s)))", goal_cases)
  case 1
  show ?case by simp
next
  case (2 this s pDelete nd s')
  then have "nodes s pDelete \<noteq> None" "dom (nodes s') = dom (nodes s) - {pDelete}"
    by (auto simp: delete_Node_def set_pHead_def split: if_splits)
  then show ?case by (auto intro!: card_Diff1_less)
qed

declare clear_loop.simps [simp del]

definition clear :: "nat \<Rightarrow> 'a state \<Rightarrow> error + 'a state" where
  "clear this s =
     seq (clear_loop this s) (\<lambda>s. Inr (set_numElements this 0 (set_pTail this 0 s)))"

section \<open>Access\<close>

text \<open>
  \<^verbatim>\<open>front\<close> and \<^verbatim>\<open>back\<close> return a reference. On \<^verbatim>\<open>numElements == 0\<close> the source
  evaluates \<^verbatim>\<open>*(new T)\<close>: a fresh object is allocated and a reference to it returned.
\<close>

definition front :: "'a \<Rightarrow> nat \<Rightarrow> 'a state \<Rightarrow> error + (reference \<times> 'a state)" where
  "front d this s =
     (if numElements (lists s this) \<noteq> 0 then
        seq (get_node s (pHead (lists s this))) (\<lambda>nd. Inr (DataOf (pHead (lists s this)), s))
      else seq (new_T d s) (\<lambda>(a, s). Inr (ObjAt a, s)))"

definition back_elem :: "'a \<Rightarrow> nat \<Rightarrow> 'a state \<Rightarrow> error + (reference \<times> 'a state)" where
  "back_elem d this s =
     (if numElements (lists s this) \<noteq> 0 then
        seq (get_node s (pTail (lists s this))) (\<lambda>nd. Inr (DataOf (pTail (lists s this)), s))
      else seq (new_T d s) (\<lambda>(a, s). Inr (ObjAt a, s)))"

definition read_ref :: "'a state \<Rightarrow> reference \<Rightarrow> error + 'a" where
  "read_ref s r =
     (case r of
        DataOf p \<Rightarrow> seq (get_node s p) (\<lambda>nd. Inr (data nd))
      | ObjAt a \<Rightarrow> (case objs s a of None \<Rightarrow> Inl Fault | Some v \<Rightarrow> Inr v))"

section \<open>Construction, assignment and swap\<close>

text \<open>The member initialisers \<^verbatim>\<open>numElements(0), pHead(nullptr), pTail(nullptr)\<close>.\<close>

definition init_list :: "nat \<Rightarrow> 'a state \<Rightarrow> 'a state" where
  "init_list this s = s\<lparr>lists := (lists s)(this := \<lparr>numElements = 0, pHead = 0, pTail = 0\<rparr>)\<rparr>"

definition list_default :: "nat \<Rightarrow> 'a state \<Rightarrow> 'a state" where
  "list_default this s = init_list this s"

text \<open>
  The constructors from an initializer list and from an iterator range run
  \<^verbatim>\<open>push_back\<close> over the elements in order; both inputs are modelled by the list of
  the elements they yield.
\<close>

fun push_back_all :: "nat \<Rightarrow> 'a list \<Rightarrow> 'a state \<Rightarrow> error + 'a state" where
  "push_back_all this [] s = Inr s"
| "push_back_all this (item # il) s = seq (push_back this item s) (push_back_all this il)"

definition list_il :: "nat \<Rightarrow> 'a list \<Rightarrow> 'a state \<Rightarrow> error + 'a state" where
  "list_il this il s = push_back_all this il (init_list this s)"

definition list_range :: "nat \<Rightarrow> 'a list \<Rightarrow> 'a state \<Rightarrow> error + 'a state" where
  "list_range this elems s = push_back_all this elems (init_list this s)"

text \<open>
  \<^verbatim>\<open>list(size_t num, const T& t)\<close>: the \<^verbatim>\<open>for\<close> loop runs \<open>num - 1\<close> rounds, each
  linking a fresh node behind \<^verbatim>\<open>pCurrent\<close>.
\<close>

fun fill_loop :: "nat \<Rightarrow> 'a \<Rightarrow> ptr \<Rightarrow> 'a state \<Rightarrow> error + (ptr \<times> 'a state)" where
  "fill_loop 0 t pCurrent s = Inr (pCurrent, s)"
| "fill_loop (Suc k) t pCurrent s =
     seq (new_Node t s) (\<lambda>(pNew, s).
     seq (set_pNext pCurrent pNew s) (\<lambda>s.
     seq (set_pPrev pNew pCurrent s) (\<lambda>s.
     fill_loop k t pNew s)))"

definition list_fill :: "nat \<Rightarrow> size_t \<Rightarrow> 'a \<Rightarrow> 'a state \<Rightarrow> error + 'a state" where
  "list_fill this num t s =
     (let s = init_list this s in
      if num > 0 then
        seq (new_Node t s) (\<lambda>(p, s).
        let s = set_pHead this p s in
        seq (fill_loop (unat num - 1) t (pHead (lists s this)) s) (\<lambda>(pCurrent, s).
        Inr (set_numElements this num (set_pTail this pCurrent s))))
      else Inr s)"

text \<open>
  \<^verbatim>\<open>list(size_t num)\<close>: the nodes are made by \<^verbatim>\<open>Node()\<close>, whose element is
  default-initialised (the value \<open>d\<close>).
\<close>

fun fill_default_loop ::
  "nat \<Rightarrow> 'a \<Rightarrow> ptr \<Rightarrow> ptr \<Rightarrow> 'a state \<Rightarrow> error + (ptr \<times> 'a state)" where
  "fill_default_loop 0 d pPrevious pNew s = Inr (pNew, s)"
| "fill_default_loop (Suc k) d pPrevious pNew s =
     seq (new_Node d s) (\<lambda>(pNew, s).
     seq (set_pPrev pNew pPrevious s) (\<lambda>s.
     seq (get_node s pNew) (\<lambda>nd.
     seq (set_pNext (pPrev nd) pNew s) (\<lambda>s.
     fill_default_loop k d pNew pNew s))))"

definition list_fill_default :: "'a \<Rightarrow> nat \<Rightarrow> size_t \<Rightarrow> 'a state \<Rightarrow> error + 'a state" where
  "list_fill_default d this num s =
     (let s = init_list this s in
      if num \<noteq> 0 then
        seq (new_Node d s) (\<lambda>(pNew, s).
        let s = set_pHead this pNew s in
        seq (set_pPrev (pHead (lists s this)) 0 s) (\<lambda>s.
        seq (fill_default_loop (unat num - 1) d pNew pNew s) (\<lambda>(pNew, s).
        seq (set_pNext pNew 0 s) (\<lambda>s.
        Inr (set_numElements this num (set_pTail this pNew s))))))
      else Inr s)"

text \<open>
  The loop shared by the copy constructor and copy assignment: \<^verbatim>\<open>push_back\<close> of the
  current node's element, then a step along \<^verbatim>\<open>pNext\<close>, read after the push. Every
  round takes a cell from the allocator (or stops with an error), so the number of free
  addresses is a measure: the loop ends even on a cyclic chain.
\<close>

lemma push_back_dom:
  assumes "push_back this v s = Inr s'"
  shows "nodes s (next_free s) = None \<and> dom (nodes s') = insert (next_free s) (dom (nodes s))"
  using assms
  by (auto simp: push_back_def new_Node_def Let_def set_pHead_def set_pTail_def
      set_numElements_def set_pNext_def set_pPrev_def get_node_def seq_def
      split: if_splits sum.splits option.splits)

function copy_from :: "nat \<Rightarrow> ptr \<Rightarrow> 'a state \<Rightarrow> error + 'a state" where
  "copy_from this pCurrent s =
     (if pCurrent \<noteq> 0 then
        seq (get_node s pCurrent) (\<lambda>nd.
        seq (push_back this (data nd) s) (\<lambda>s.
        seq (get_node s pCurrent) (\<lambda>nd.
        copy_from this (pNext nd) s)))
      else Inr s)"
  by pat_completeness auto
termination
proof (relation "measure (\<lambda>(this, p, s). card (- dom (nodes s)))", goal_cases)
  case 1
  show ?case by simp
next
  case (2 this pCurrent s nd s' nd')
  from push_back_dom [OF 2(3)]
  have "next_free s \<in> - dom (nodes s)" "- dom (nodes s') = (- dom (nodes s)) - {next_free s}"
    by auto
  then have "card (- dom (nodes s')) < card (- dom (nodes s))"
    using card_Diff1_less [of "- dom (nodes s)" "next_free s"] by simp
  then show ?case by simp
qed

declare copy_from.simps [simp del]

definition list_copy :: "nat \<Rightarrow> nat \<Rightarrow> 'a state \<Rightarrow> error + 'a state" where
  "list_copy this rhs s =
     (let s = init_list this s in
      if pHead (lists s rhs) \<noteq> 0 then copy_from this (pHead (lists s rhs)) s else Inr s)"

definition list_move :: "nat \<Rightarrow> nat \<Rightarrow> 'a state \<Rightarrow> 'a state" where
  "list_move this rhs s =
     (let s = s\<lparr>lists := (lists s)(this :=
                \<lparr>numElements = numElements (lists s rhs), pHead = pHead (lists s rhs),
                 pTail = pTail (lists s rhs)\<rparr>)\<rparr>;
          s = set_pTail rhs 0 s;
          s = set_pHead rhs (pTail (lists s rhs)) s
      in set_numElements rhs 0 s)"

definition list_dtor :: "nat \<Rightarrow> 'a state \<Rightarrow> error + 'a state" where
  "list_dtor this s = clear this s"

definition assign_copy :: "nat \<Rightarrow> nat \<Rightarrow> 'a state \<Rightarrow> error + 'a state" where
  "assign_copy this rhs s =
     (if this \<noteq> rhs then
        seq (clear this s) (\<lambda>s. copy_from this (pHead (lists s rhs)) s)
      else Inr s)"

text \<open>
  \<^verbatim>\<open>operator=(list&&)\<close>: the body is \<^verbatim>\<open>*this = std::move(rhs); return *this;\<close>, and the
  assignment in it selects the same overload. A call that does not return is the value
  \<open>None\<close>.
\<close>

partial_function (option) assign_move ::
  "nat \<Rightarrow> nat \<Rightarrow> 'a state \<Rightarrow> (error + 'a state) option" where
  "assign_move this rhs s =
     Option.bind (assign_move this rhs s)
       (\<lambda>r. case r of Inl e \<Rightarrow> Some (Inl e) | Inr s \<Rightarrow> Some (Inr s))"

text \<open>\<^verbatim>\<open>operator=(const std::initializer_list<T>&)\<close>: the body is \<^verbatim>\<open>return *this;\<close>.\<close>

definition assign_il :: "nat \<Rightarrow> 'a list \<Rightarrow> 'a state \<Rightarrow> error + 'a state" where
  "assign_il this il s = Inr s"

text \<open>The free \<^verbatim>\<open>swap\<close> sets one member of \<^verbatim>\<open>lhs\<close>; the member \<^verbatim>\<open>swap\<close> has an empty body.\<close>

definition swap_free :: "nat \<Rightarrow> nat \<Rightarrow> 'a state \<Rightarrow> 'a state" where
  "swap_free lhs rhs s = set_numElements lhs 99 s"

definition swap_member :: "nat \<Rightarrow> nat \<Rightarrow> 'a state \<Rightarrow> 'a state" where
  "swap_member this rhs s = s"

section \<open>Sequences of operations\<close>

text \<open>
  A client reaches a position by stepping an iterator from \<^verbatim>\<open>begin()\<close>; \<open>advance\<close> is
  that walk. Stepping the past-the-end iterator dereferences the null pointer.
\<close>

fun advance :: "'a state \<Rightarrow> iterator \<Rightarrow> nat \<Rightarrow> error + iterator" where
  "advance s it 0 = Inr it"
| "advance s it (Suc k) = seq (it_incr s it) (\<lambda>it. advance s it k)"

datatype 'a operation =
  Push_front 'a | Push_front_move 'a | Push_back 'a | Push_back_move 'a
  | Pop_front | Pop_back | Insert nat 'a | Insert_move nat 'a | Erase nat

fun apply_op :: "nat \<Rightarrow> 'a operation \<Rightarrow> 'a state \<Rightarrow> error + 'a state" where
  "apply_op this (Push_front v) s = push_front this v s"
| "apply_op this (Push_front_move v) s = push_front_move this v s"
| "apply_op this (Push_back v) s = push_back this v s"
| "apply_op this (Push_back_move v) s = push_back_move this v s"
| "apply_op this Pop_front s = pop_front this s"
| "apply_op this Pop_back s = pop_back this s"
| "apply_op this (Insert k v) s =
     seq (advance s (begin_it this s) k) (\<lambda>it.
     seq (insert_copy this it v s) (\<lambda>(r, s). Inr s))"
| "apply_op this (Insert_move k v) s =
     seq (advance s (begin_it this s) k) (\<lambda>it.
     seq (insert_move this it v s) (\<lambda>(r, s). Inr s))"
| "apply_op this (Erase k) s =
     seq (advance s (begin_it this s) k) (\<lambda>it.
     seq (erase this it s) (\<lambda>(r, s). Inr s))"

fun run :: "nat \<Rightarrow> 'a operation list \<Rightarrow> 'a state \<Rightarrow> error + 'a state" where
  "run this [] s = Inr s"
| "run this (x # xs) s = seq (apply_op this x s) (run this xs)"

section \<open>The abstraction\<close>

text \<open>
  \<open>seg h pv xs nx\<close>: in the heap \<open>h\<close> the cells at the addresses of \<open>xs\<close> form a
  doubly-linked segment holding the values of \<open>xs\<close>; the first cell's back link is
  \<open>pv\<close>, the last cell's forward link is \<open>nx\<close>. \<open>dll s this xs\<close>: the list object
  \<open>this\<close> owns exactly that chain, from \<open>pHead\<close> to \<open>pTail\<close>, and counts it.
\<close>

fun first :: "(ptr \<times> 'a) list \<Rightarrow> ptr \<Rightarrow> ptr" where
  "first [] nx = nx"
| "first ((a, v) # xs) nx = a"

fun lastp :: "ptr \<Rightarrow> (ptr \<times> 'a) list \<Rightarrow> ptr" where
  "lastp pv [] = pv"
| "lastp pv ((a, v) # xs) = lastp a xs"

fun seg :: "(ptr \<rightharpoonup> 'a Node) \<Rightarrow> ptr \<Rightarrow> (ptr \<times> 'a) list \<Rightarrow> ptr \<Rightarrow> bool" where
  "seg h pv [] nx = True"
| "seg h pv ((a, v) # xs) nx =
     (a \<noteq> 0 \<and> h a = Some \<lparr>data = v, pNext = first xs nx, pPrev = pv\<rparr> \<and> seg h a xs nx)"

definition dll :: "'a state \<Rightarrow> nat \<Rightarrow> (ptr \<times> 'a) list \<Rightarrow> bool" where
  "dll s this xs =
     (distinct (map fst xs) \<and> seg (nodes s) 0 xs 0 \<and>
      pHead (lists s this) = first xs 0 \<and> pTail (lists s this) = lastp 0 xs \<and>
      unat (numElements (lists s this)) = length xs)"

text \<open>The allocator can hand out a cell.\<close>

definition can_alloc :: "'a state \<Rightarrow> bool" where
  "can_alloc s =
     (next_free s \<noteq> 0 \<and> nodes s (next_free s) = None \<and> objs s (next_free s) = None)"

text \<open>
  What a member function of \<open>this\<close> leaves alone: the other list objects, the live
  nodes outside its own chain \<open>xs\<close>, and the stand-alone objects.
\<close>

definition frame :: "'a state \<Rightarrow> 'a state \<Rightarrow> nat \<Rightarrow> (ptr \<times> 'a) list \<Rightarrow> bool" where
  "frame s s' this xs =
     ((\<forall>that. that \<noteq> this \<longrightarrow> lists s' that = lists s that) \<and>
      (\<forall>a. a \<notin> fst ` set xs \<longrightarrow> nodes s a \<noteq> None \<longrightarrow> nodes s' a = nodes s a) \<and>
      objs s' = objs s)"

text \<open>
  \<open>cells s n\<close> are the next \<open>n\<close> addresses the allocator would hand out, and
  \<open>room s n\<close> says they are \<open>n\<close> different free cells, none of them null: then \<open>n\<close>
  allocations in a row succeed.
\<close>

definition cells :: "'a state \<Rightarrow> nat \<Rightarrow> ptr list" where
  "cells s n = map (\<lambda>i. next_free s + of_nat i) [0..<n]"

definition room :: "'a state \<Rightarrow> nat \<Rightarrow> bool" where
  "room s n =
     (distinct (cells s n) \<and>
      list_all (\<lambda>a. a \<noteq> 0 \<and> nodes s a = None \<and> objs s a = None) (cells s n))"

text \<open>
  \<open>copied s s' this xs ys\<close>: from \<open>s\<close> to \<open>s'\<close> the list \<open>this\<close> grew from \<open>xs\<close> by
  fresh nodes holding the values of \<open>ys\<close> in order, and nothing else changed.
\<close>

definition copied :: "'a state \<Rightarrow> 'a state \<Rightarrow> nat \<Rightarrow> (ptr \<times> 'a) list \<Rightarrow> (ptr \<times> 'a) list \<Rightarrow> bool" where
  "copied s s' this xs ys =
     (\<exists>zs. dll s' this (xs @ zs) \<and> map snd zs = map snd ys \<and>
           fst ` set zs \<inter> dom (nodes s) = {} \<and> frame s s' this xs)"

text \<open>
  \<open>deep_copy s' this rhs ys\<close>: in \<open>s'\<close> the list \<open>rhs\<close> is the chain \<open>ys\<close> and \<open>this\<close>
  is a chain of other cells with the same values in the same order, and whatever
  sequence of mutations runs on one of the two lists, the other stays the chain it is.
  \<open>source_same s s' rhs ys\<close>: the list object \<open>rhs\<close> and the nodes of its chain \<open>ys\<close>
  are in \<open>s'\<close> what they were in \<open>s\<close>.
\<close>

definition deep_copy :: "'a state \<Rightarrow> nat \<Rightarrow> nat \<Rightarrow> (ptr \<times> 'a) list \<Rightarrow> bool" where
  "deep_copy s' this rhs ys =
     (\<exists>zs. dll s' this zs \<and> map snd zs = map snd ys \<and>
           fst ` set zs \<inter> fst ` set ys = {} \<and> dll s' rhs ys \<and>
           (\<forall>ops s''. run this ops s' = Inr s'' \<longrightarrow> dll s'' rhs ys) \<and>
           (\<forall>ops s''. run rhs ops s' = Inr s'' \<longrightarrow> dll s'' this zs))"

definition source_same :: "'a state \<Rightarrow> 'a state \<Rightarrow> nat \<Rightarrow> (ptr \<times> 'a) list \<Rightarrow> bool" where
  "source_same s s' rhs ys =
     (lists s' rhs = lists s rhs \<and>
      map (nodes s') (map fst ys) = map (nodes s) (map fst ys) \<and> dll s' rhs ys)"

section \<open>The structural invariants\<close>

text \<open>
  \<open>walk_next h n p\<close> follows \<^verbatim>\<open>pNext\<close> from \<open>p\<close> to the null pointer and returns the
  nodes it passes; it gives up (\<open>None\<close>) at a dangling pointer or when more than \<open>n\<close>
  nodes are on the way. \<open>walk_prev\<close> does the same along \<^verbatim>\<open>pPrev\<close>. \<open>linked h a\<close>:
  the neighbours the node \<open>a\<close> points to point back to it. \<open>structural_inv\<close> puts
  together what the data model asks of a list object: exactly \<^verbatim>\<open>numElements\<close> nodes
  are reachable forwards from \<^verbatim>\<open>pHead\<close> and backwards from \<^verbatim>\<open>pTail\<close>, every one of
  them is linked symmetrically, and \<^verbatim>\<open>pHead\<close> is null iff \<^verbatim>\<open>pTail\<close> is null iff the
  count is 0.
\<close>

fun walk_next :: "(ptr \<rightharpoonup> 'a Node) \<Rightarrow> nat \<Rightarrow> ptr \<Rightarrow> ptr list option" where
  "walk_next h 0 p = (if p = 0 then Some [] else None)"
| "walk_next h (Suc k) p =
     (if p = 0 then Some []
      else case h p of None \<Rightarrow> None
           | Some nd \<Rightarrow> map_option ((#) p) (walk_next h k (pNext nd)))"

fun walk_prev :: "(ptr \<rightharpoonup> 'a Node) \<Rightarrow> nat \<Rightarrow> ptr \<Rightarrow> ptr list option" where
  "walk_prev h 0 p = (if p = 0 then Some [] else None)"
| "walk_prev h (Suc k) p =
     (if p = 0 then Some []
      else case h p of None \<Rightarrow> None
           | Some nd \<Rightarrow> map_option ((#) p) (walk_prev h k (pPrev nd)))"

definition linked :: "(ptr \<rightharpoonup> 'a Node) \<Rightarrow> ptr \<Rightarrow> bool" where
  "linked h a =
     (case h a of None \<Rightarrow> False
      | Some nd \<Rightarrow>
          (pNext nd = 0 \<or> (case h (pNext nd) of None \<Rightarrow> False | Some nb \<Rightarrow> pPrev nb = a)) \<and>
          (pPrev nd = 0 \<or> (case h (pPrev nd) of None \<Rightarrow> False | Some np \<Rightarrow> pNext np = a)))"

definition structural_inv :: "'a state \<Rightarrow> nat \<Rightarrow> bool" where
  "structural_inv s this =
     (let l = lists s this; n = unat (numElements l) in
      (case walk_next (nodes s) n (pHead l) of None \<Rightarrow> False
       | Some as \<Rightarrow> length as = n \<and> list_all (linked (nodes s)) as) \<and>
      (case walk_prev (nodes s) n (pTail l) of None \<Rightarrow> False
       | Some bs \<Rightarrow> length bs = n) \<and>
      (pHead l = 0) = (pTail l = 0) \<and> (pTail l = 0) = (numElements l = 0))"

section \<open>Example stores\<close>

text \<open>
  \<open>s_empty\<close>: no cell is live and every list object is empty. \<open>s_123\<close>: list object 0
  holds 10, 20, 30 in the cells 1, 2, 3.
\<close>

definition s_empty :: "nat state" where
  "s_empty = \<lparr>nodes = Map.empty, objs = Map.empty,
     lists = (\<lambda>_. \<lparr>numElements = 0, pHead = 0, pTail = 0\<rparr>), next_free = 1\<rparr>"

definition s_123 :: "nat state" where
  "s_123 = \<lparr>nodes = [1 \<mapsto> \<lparr>data = 10, pNext = 2, pPrev = 0\<rparr>,
                      2 \<mapsto> \<lparr>data = 20, pNext = 3, pPrev = 1\<rparr>,
                      3 \<mapsto> \<lparr>data = 30, pNext = 0, pPrev = 2\<rparr>],
            objs = Map.empty,
            lists = (\<lambda>_. \<lparr>numElements = 0, pHead = 0, pTail = 0\<rparr>)
                      (0 := \<lparr>numElements = 3, pHead = 1, pTail = 3\<rparr>),
            next_free = 4\<rparr>"

text \<open>\<open>s_pair\<close>: as \<open>s_123\<close>, and list object 1 holds 40 in the cell 4.\<close>

definition s_pair :: "nat state" where
  "s_pair = \<lparr>nodes = [1 \<mapsto> \<lparr>data = 10, pNext = 2, pPrev = 0\<rparr>,
                       2 \<mapsto> \<lparr>data = 20, pNext = 3, pPrev = 1\<rparr>,
                       3 \<mapsto> \<lparr>data = 30, pNext = 0, pPrev = 2\<rparr>,
                       4 \<mapsto> \<lparr>data = 40, pNext = 0, pPrev = 0\<rparr>],
             objs = Map.empty,
             lists = (\<lambda>_. \<lparr>numElements = 0, pHead = 0, pTail = 0\<rparr>)
                       (0 := \<lparr>numElements = 3, pHead = 1, pTail = 3\<rparr>,
                        1 := \<lparr>numElements = 1, pHead = 4, pTail = 4\<rparr>),
             next_free = 5\<rparr>"

section \<open>Segments\<close>

lemma first_append [simp]: "first (xs @ ys) nx = first xs (first ys nx)"
  by (cases xs) auto

lemma lastp_append [simp]: "lastp pv (xs @ ys) = lastp (lastp pv xs) ys"
  by (induction xs arbitrary: pv) auto

lemma seg_append [simp]:
  "seg h pv (xs @ ys) nx = (seg h pv xs (first ys nx) \<and> seg h (lastp pv xs) ys nx)"
  by (induction xs arbitrary: pv) auto

lemma seg_upd_notin [simp]:
  "a \<notin> fst ` set xs \<Longrightarrow> seg (h(a := x)) pv xs nx = seg h pv xs nx"
  by (induction xs arbitrary: pv) auto

lemma seg_nonzero: "seg h pv xs nx \<Longrightarrow> 0 \<notin> fst ` set xs"
  by (induction xs arbitrary: pv) fastforce+

lemma seg_live: "seg h pv xs nx \<Longrightarrow> a \<in> fst ` set xs \<Longrightarrow> h a \<noteq> None"
  by (induction xs arbitrary: pv) fastforce+

lemma distinct_ptrs_bound:
  fixes ps :: "ptr list"
  assumes "distinct ps"
  shows "length ps \<le> 2 ^ 64"
proof -
  have "length ps = card (set ps)" using assms by (simp add: distinct_card)
  also have "\<dots> \<le> card (UNIV :: ptr set)" by (rule card_mono) auto
  also have "\<dots> = 2 ^ 64" by (simp add: card_word)
  finally show ?thesis .
qed

lemma count_inc:
  fixes n :: size_t and xs :: "(ptr \<times> 'a) list"
  assumes "unat n = length xs" "distinct (map fst xs)" "0 \<notin> fst ` set xs"
    "a \<notin> fst ` set xs" "a \<noteq> 0"
  shows "unat (n + 1) = Suc (length xs)"
proof -
  have "distinct (0 # a # map fst xs)" using assms by auto
  from distinct_ptrs_bound [OF this] have "length xs + 2 \<le> 2 ^ 64" by simp
  then have "unat n + unat (1 :: size_t) < 2 ^ LENGTH(64)" using assms(1) by simp
  then have "unat (n + 1) = unat n + unat (1 :: size_t)" by (simp only: unat_add_lem)
  then show ?thesis using assms(1) by simp
qed

lemma count_dec:
  fixes n :: size_t
  assumes "unat n = Suc k"
  shows "unat (n - 1) = k"
proof -
  have "n \<noteq> 0" using assms by (auto simp: unat_eq_zero)
  then show ?thesis using assms by (simp add: unat_minus_one)
qed

lemma get_node_live [simp]:
  "p \<noteq> 0 \<Longrightarrow> nodes s p = Some nd \<Longrightarrow> get_node s p = Inr nd"
  by (simp add: get_node_def)

section \<open>The mutators on a well-formed list\<close>

lemma new_Node_eq:
  "new_Node v s =
     (if can_alloc s
      then Inr (next_free s,
             s\<lparr>nodes := (nodes s)(next_free s \<mapsto> \<lparr>data = v, pNext = 0, pPrev = 0\<rparr>),
               next_free := next_free s + 1\<rparr>)
      else Inl BadAlloc)"
  by (auto simp: new_Node_def can_alloc_def Let_def)

lemmas upd_defs = set_pHead_def set_pTail_def set_numElements_def set_pNext_def set_pPrev_def

lemma dll_facts:
  assumes "dll s this xs"
  shows "0 \<notin> fst ` set xs" and "\<And>b. b \<in> fst ` set xs \<Longrightarrow> nodes s b \<noteq> None"
  using assms by (auto simp: dll_def dest: seg_nonzero seg_live)

lemma push_back_alloc: "push_back this v s = Inr s' \<Longrightarrow> can_alloc s"
  by (simp add: push_back_def new_Node_eq split: if_splits)

lemma push_back_spec:
  assumes "dll s this xs" "can_alloc s"
  shows "\<exists>s'. push_back this v s = Inr s' \<and> dll s' this (xs @ [(next_free s, v)]) \<and>
           frame s s' this xs"
proof -
  let ?a = "next_free s"
  have a: "?a \<noteq> 0" "nodes s ?a = None" using assms(2) by (auto simp: can_alloc_def)
  note nz = dll_facts(1) [OF assms(1)]
  have fresh: "?a \<notin> fst ` set xs" using a dll_facts(2) [OF assms(1)] by blast
  have cnt: "unat (numElements (lists s this) + 1) = Suc (length xs)"
    using assms(1) nz fresh a by (intro count_inc) (auto simp: dll_def)
  show ?thesis
  proof (cases xs rule: rev_cases)
    case Nil
    then show ?thesis using assms a cnt
      by (auto simp: dll_def frame_def push_back_def new_Node_eq upd_defs)
  next
    case (snoc ys y)
    obtain t w where y: "y = (t, w)" by (cases y)
    show ?thesis using assms a cnt fresh nz unfolding snoc y
      by (auto simp: dll_def frame_def push_back_def new_Node_eq upd_defs)
  qed
qed

lemma push_front_alloc: "push_front this v s = Inr s' \<Longrightarrow> can_alloc s"
  by (simp add: push_front_def new_Node_eq split: if_splits)

lemma push_front_spec:
  assumes "dll s this xs" "can_alloc s"
  shows "\<exists>s'. push_front this v s = Inr s' \<and> dll s' this ((next_free s, v) # xs) \<and>
           frame s s' this xs"
proof -
  let ?a = "next_free s"
  have a: "?a \<noteq> 0" "nodes s ?a = None" using assms(2) by (auto simp: can_alloc_def)
  note nz = dll_facts(1) [OF assms(1)]
  have fresh: "?a \<notin> fst ` set xs" using a dll_facts(2) [OF assms(1)] by blast
  have cnt: "unat (numElements (lists s this) + 1) = Suc (length xs)"
    using assms(1) nz fresh a by (intro count_inc) (auto simp: dll_def)
  show ?thesis
  proof (cases xs)
    case Nil
    then show ?thesis using assms a cnt
      by (auto simp: dll_def frame_def push_front_def new_Node_eq upd_defs)
  next
    case (Cons y ys)
    obtain t w where y: "y = (t, w)" by (cases y)
    show ?thesis using assms a cnt fresh nz unfolding Cons y
      by (auto simp: dll_def frame_def push_front_def new_Node_eq upd_defs)
  qed
qed

lemma pop_back_spec:
  assumes "dll s this (xs @ [(a, v)])"
  shows "\<exists>s'. pop_back this s = Inr s' \<and> dll s' this xs \<and> nodes s' a = None \<and>
           frame s s' this (xs @ [(a, v)])"
proof -
  have cnt: "unat (numElements (lists s this) - 1) = length xs"
    using assms by (intro count_dec) (auto simp: dll_def)
  show ?thesis
  proof (cases xs rule: rev_cases)
    case Nil
    then show ?thesis using assms cnt
      by (auto simp: dll_def frame_def pop_back_def delete_Node_def upd_defs)
  next
    case (snoc ys y)
    obtain t w where y: "y = (t, w)" by (cases y)
    show ?thesis using assms cnt unfolding snoc y
      by (auto simp: dll_def frame_def pop_back_def delete_Node_def upd_defs)
  qed
qed

lemma pop_front_spec:
  assumes "dll s this ((a, v) # xs)"
  shows "\<exists>s'. pop_front this s = Inr s' \<and> dll s' this xs \<and> nodes s' a = None \<and>
           frame s s' this ((a, v) # xs)"
proof -
  have cnt: "unat (numElements (lists s this) - 1) = length xs"
    using assms by (intro count_dec) (auto simp: dll_def)
  show ?thesis
  proof (cases xs)
    case Nil
    then show ?thesis using assms cnt
      by (auto simp: dll_def frame_def pop_front_def delete_Node_def upd_defs)
  next
    case (Cons y ys)
    obtain t w where y: "y = (t, w)" by (cases y)
    show ?thesis using assms cnt unfolding Cons y
      by (auto simp: dll_def frame_def pop_front_def delete_Node_def upd_defs)
  qed
qed

lemma insert_copy_alloc: "insert_copy this it v s = Inr r \<Longrightarrow> can_alloc s"
  by (simp add: insert_copy_def new_Node_eq split: if_splits)

lemma first_eq_0: "0 \<notin> fst ` set xs \<Longrightarrow> (first xs nx = 0) = (xs = [] \<and> nx = 0)"
  by (cases xs) auto

lemma insert_copy_spec:
  assumes "dll s this (ys @ zs)" "can_alloc s"
  shows "\<exists>s'. insert_copy this (first zs 0) v s = Inr (next_free s, s') \<and>
           dll s' this (ys @ (next_free s, v) # zs) \<and> frame s s' this (ys @ zs)"
proof -
  let ?a = "next_free s"
  have a: "?a \<noteq> 0" "nodes s ?a = None" using assms(2) by (auto simp: can_alloc_def)
  note nz = dll_facts(1) [OF assms(1)]
  have fresh: "?a \<notin> fst ` set (ys @ zs)" using a dll_facts(2) [OF assms(1)] by blast
  have cnt: "unat (numElements (lists s this) + 1) = Suc (length (ys @ zs))"
    using assms(1) nz fresh a by (intro count_inc) (auto simp: dll_def)
  show ?thesis
  proof (cases zs)
    case Nil
    show ?thesis
    proof (cases ys rule: rev_cases)
      case Nil
      then show ?thesis using assms a cnt \<open>zs = []\<close>
        by (auto simp: dll_def frame_def insert_copy_def empty_def begin_it_def end_it_def
            new_Node_eq upd_defs first_eq_0 image_Un)
    next
      case (snoc ys' y)
      obtain t w where y: "y = (t, w)" by (cases y)
      show ?thesis using assms a cnt fresh nz unfolding snoc y \<open>zs = []\<close>
        by (auto simp: dll_def frame_def insert_copy_def empty_def begin_it_def end_it_def
            new_Node_eq upd_defs first_eq_0 image_Un)
    qed
  next
    case (Cons z zs')
    obtain b u where z: "z = (b, u)" by (cases z)
    show ?thesis
    proof (cases ys rule: rev_cases)
      case Nil
      then show ?thesis using assms a cnt fresh nz unfolding Cons z
        by (auto simp: dll_def frame_def insert_copy_def empty_def begin_it_def end_it_def
            new_Node_eq upd_defs first_eq_0 image_Un)
    next
      case (snoc ys' y)
      obtain t w where y: "y = (t, w)" by (cases y)
      show ?thesis using assms a cnt fresh nz unfolding snoc y Cons z
        by (auto simp: dll_def frame_def insert_copy_def empty_def begin_it_def end_it_def
            new_Node_eq upd_defs first_eq_0 image_Un)
    qed
  qed
qed

lemma erase_spec:
  assumes "dll s this (ys @ (a, v) # zs)"
  shows "\<exists>s'. erase this a s = Inr (first zs 0, s') \<and> dll s' this (ys @ zs) \<and>
           nodes s' a = None \<and> frame s s' this (ys @ (a, v) # zs)"
proof -
  have cnt: "unat (numElements (lists s this) - 1) = length (ys @ zs)"
    using assms by (intro count_dec) (auto simp: dll_def)
  note nz = dll_facts(1) [OF assms(1)]
  show ?thesis
  proof (cases zs)
    case Nil
    show ?thesis
    proof (cases ys rule: rev_cases)
      case Nil
      then show ?thesis using assms cnt \<open>zs = []\<close>
        by (auto simp: dll_def frame_def erase_def delete_Node_def end_it_def upd_defs first_eq_0 image_Un)
    next
      case (snoc ys' y)
      obtain t w where y: "y = (t, w)" by (cases y)
      show ?thesis using assms cnt nz unfolding snoc y \<open>zs = []\<close>
        by (auto simp: dll_def frame_def erase_def delete_Node_def end_it_def upd_defs first_eq_0 image_Un)
    qed
  next
    case (Cons z zs')
    obtain b u where z: "z = (b, u)" by (cases z)
    show ?thesis
    proof (cases ys rule: rev_cases)
      case Nil
      then show ?thesis using assms cnt nz unfolding Cons z
        by (auto simp: dll_def frame_def erase_def delete_Node_def end_it_def upd_defs first_eq_0 image_Un)
    next
      case (snoc ys' y)
      obtain t w where y: "y = (t, w)" by (cases y)
      show ?thesis using assms cnt nz unfolding snoc y Cons z
        by (auto simp: dll_def frame_def erase_def delete_Node_def end_it_def upd_defs first_eq_0 image_Un)
    qed
  qed
qed

section \<open>The constructors build well-formed lists\<close>

text \<open>
  Each constructor that returns leaves \<open>this\<close> a well-formed chain holding the
  elements it was given, in order (the copy and the move constructor are treated
  further down).
\<close>

lemma list_default_dll: "dll (list_default this s) this []"
  by (simp add: list_default_def init_list_def dll_def)

lemma push_back_all_spec:
  assumes "dll s this xs" "push_back_all this vs s = Inr s'"
  shows "\<exists>zs. dll s' this (xs @ zs) \<and> map snd zs = vs"
  using assms
proof (induction vs arbitrary: s xs)
  case Nil
  then show ?case by simp
next
  case (Cons v vs)
  from Cons.prems(2) obtain s1 where s1: "push_back this v s = Inr s1"
    "push_back_all this vs s1 = Inr s'" by (auto simp: seq_def split: sum.splits)
  from push_back_spec [OF Cons.prems(1) push_back_alloc [OF s1(1)], of v] s1(1)
  have "dll s1 this (xs @ [(next_free s, v)])" by auto
  from Cons.IH [OF this s1(2)] obtain zs where "dll s' this ((xs @ [(next_free s, v)]) @ zs)"
    "map snd zs = vs" by blast
  then show ?case by (intro exI [of _ "(next_free s, v) # zs"]) simp
qed

lemma list_il_dll:
  assumes "list_il this il s = Inr s'"
  shows "\<exists>zs. dll s' this zs \<and> map snd zs = il"
  using push_back_all_spec [of "init_list this s" this "[]" il s'] assms
  by (simp add: list_il_def init_list_def dll_def)

lemma list_range_dll:
  assumes "list_range this elems s = Inr s'"
  shows "\<exists>zs. dll s' this zs \<and> map snd zs = elems"
  using push_back_all_spec [of "init_list this s" this "[]" elems s'] assms
  by (simp add: list_range_def init_list_def dll_def)

lemma fill_loop_spec:
  assumes "seg (nodes s) 0 (ys @ [(c, w)]) 0" "distinct (map fst (ys @ [(c, w)]))"
    "fill_loop k t c s = Inr (c', s')"
  shows "\<exists>zs. seg (nodes s') 0 (ys @ (c, w) # zs) 0 \<and> distinct (map fst (ys @ (c, w) # zs)) \<and>
           map snd zs = replicate k t \<and> c' = lastp c zs \<and> lists s' = lists s"
  using assms
proof (induction k arbitrary: s ys c w)
  case 0
  then show ?case by (intro exI [of _ "[]"]) simp
next
  case (Suc k)
  let ?n = "next_free s"
  from Suc.prems(3) have ca: "can_alloc s"
    by (simp add: new_Node_eq split: if_splits)
  then have n: "?n \<noteq> 0" "nodes s ?n = None" by (simp_all add: can_alloc_def)
  have live: "\<And>b. b \<in> fst ` set (ys @ [(c, w)]) \<Longrightarrow> nodes s b \<noteq> None"
    using seg_live [OF Suc.prems(1)] by blast
  have "?n \<notin> fst ` set (ys @ [(c, w)])"
  proof
    assume "?n \<in> fst ` set (ys @ [(c, w)])"
    from live [OF this] n(2) show False by simp
  qed
  then have fresh: "?n \<notin> fst ` set ys" "?n \<noteq> c" by auto
  have c: "c \<noteq> 0" "nodes s c = Some \<lparr>data = w, pNext = 0, pPrev = lastp 0 ys\<rparr>"
    "c \<notin> fst ` set ys" "seg (nodes s) 0 ys c"
    using Suc.prems(1,2) by auto
  define s1 where "s1 = s\<lparr>next_free := ?n + 1,
      nodes := (nodes s)(c \<mapsto> \<lparr>data = w, pNext = ?n, pPrev = lastp 0 ys\<rparr>,
                         ?n \<mapsto> \<lparr>data = t, pNext = 0, pPrev = c\<rparr>)\<rparr>"
  have step: "fill_loop (Suc k) t c s = fill_loop k t ?n s1"
    using ca c n fresh by (simp add: new_Node_eq upd_defs s1_def)
  have sg: "seg (nodes s1) 0 ((ys @ [(c, w)]) @ [(?n, t)]) 0"
    using c n fresh by (simp add: s1_def)
  have ds: "distinct (map fst ((ys @ [(c, w)]) @ [(?n, t)]))"
    using Suc.prems(2) fresh by simp
  from Suc.prems(3) step have "fill_loop k t ?n s1 = Inr (c', s')" by simp
  from Suc.IH [OF sg ds this] obtain zs where
    zs: "seg (nodes s') 0 ((ys @ [(c, w)]) @ (?n, t) # zs) 0"
    "distinct (map fst ((ys @ [(c, w)]) @ (?n, t) # zs))"
    "map snd zs = replicate k t" "c' = lastp ?n zs" "lists s' = lists s1" by blast
  have "lists s1 = lists s" by (simp add: s1_def)
  with zs show ?case by (intro exI [of _ "(?n, t) # zs"]) simp
qed

lemma list_fill_dll:
  assumes "list_fill this num t s = Inr s'"
  shows "\<exists>zs. dll s' this zs \<and> map snd zs = replicate (unat num) t"
proof (cases "num = 0")
  case True
  with assms have "s' = init_list this s" by (simp add: list_fill_def Let_def)
  then show ?thesis using True by (simp add: init_list_def dll_def)
next
  case False
  let ?s0 = "init_list this s"
  let ?n = "next_free s"
  have pos: "num > 0" using False by (simp add: word_greater_zero_iff)
  from assms pos have ca: "can_alloc ?s0"
    by (simp add: list_fill_def Let_def new_Node_eq split: if_splits)
  define s1 where "s1 = set_pHead this ?n
     (?s0\<lparr>nodes := (nodes s)(?n \<mapsto> \<lparr>data = t, pNext = 0, pPrev = 0\<rparr>), next_free := ?n + 1\<rparr>)"
  from assms pos ca obtain c' s2 where l: "fill_loop (unat num - 1) t ?n s1 = Inr (c', s2)"
    and s': "s' = set_numElements this num (set_pTail this c' s2)"
    by (auto simp: list_fill_def Let_def new_Node_eq init_list_def s1_def set_pHead_def
        seq_def split: sum.splits)
  have n: "?n \<noteq> 0" using ca by (simp add: can_alloc_def init_list_def)
  have sg: "seg (nodes s1) 0 ([] @ [(?n, t)]) 0" "distinct (map fst ([] @ [(?n, t)]))"
    using n by (simp_all add: s1_def set_pHead_def init_list_def)
  from fill_loop_spec [OF sg l] obtain zs where
    zs: "seg (nodes s2) 0 ((?n, t) # zs) 0" "distinct (map fst ((?n, t) # zs))"
    "map snd zs = replicate (unat num - 1) t" "c' = lastp ?n zs" "lists s2 = lists s1" by auto
  have len: "length zs = unat num - 1" using zs(3) by (metis length_map length_replicate)
  have "unat num \<noteq> 0" using False by (simp add: unat_eq_zero)
  then have un: "Suc (unat num - 1) = unat num" by simp
  have "dll s' this ((?n, t) # zs)"
    using zs len un by (simp add: dll_def s' upd_defs s1_def init_list_def)
  moreover have "map snd ((?n, t) # zs) = replicate (unat num) t"
    using zs(3) un by (metis list.simps(9) replicate_Suc snd_conv)
  ultimately show ?thesis by (intro exI [of _ "(?n, t) # zs"]) simp
qed

lemma fill_default_loop_spec:
  assumes "seg (nodes s) 0 (ys @ [(c, w)]) 0" "distinct (map fst (ys @ [(c, w)]))"
    "fill_default_loop k d c c s = Inr (c', s')"
  shows "\<exists>zs. seg (nodes s') 0 (ys @ (c, w) # zs) 0 \<and> distinct (map fst (ys @ (c, w) # zs)) \<and>
           map snd zs = replicate k d \<and> c' = lastp c zs \<and> lists s' = lists s"
  using assms
proof (induction k arbitrary: s ys c w)
  case 0
  then show ?case by (intro exI [of _ "[]"]) simp
next
  case (Suc k)
  let ?n = "next_free s"
  from Suc.prems(3) have ca: "can_alloc s"
    by (simp add: new_Node_eq split: if_splits)
  then have n: "?n \<noteq> 0" "nodes s ?n = None" by (simp_all add: can_alloc_def)
  have live: "\<And>b. b \<in> fst ` set (ys @ [(c, w)]) \<Longrightarrow> nodes s b \<noteq> None"
    using seg_live [OF Suc.prems(1)] by blast
  have "?n \<notin> fst ` set (ys @ [(c, w)])"
  proof
    assume "?n \<in> fst ` set (ys @ [(c, w)])"
    from live [OF this] n(2) show False by simp
  qed
  then have fresh: "?n \<notin> fst ` set ys" "?n \<noteq> c" by auto
  have c: "c \<noteq> 0" "nodes s c = Some \<lparr>data = w, pNext = 0, pPrev = lastp 0 ys\<rparr>"
    "c \<notin> fst ` set ys" "seg (nodes s) 0 ys c"
    using Suc.prems(1,2) by auto
  define s1 where "s1 = s\<lparr>next_free := ?n + 1,
      nodes := (nodes s)(?n \<mapsto> \<lparr>data = d, pNext = 0, pPrev = c\<rparr>,
                         c \<mapsto> \<lparr>data = w, pNext = ?n, pPrev = lastp 0 ys\<rparr>)\<rparr>"
  have step: "fill_default_loop (Suc k) d c c s = fill_default_loop k d ?n ?n s1"
    using ca c n fresh by (simp add: new_Node_eq upd_defs s1_def)
  have sg: "seg (nodes s1) 0 ((ys @ [(c, w)]) @ [(?n, d)]) 0"
    using c n fresh by (simp add: s1_def)
  have ds: "distinct (map fst ((ys @ [(c, w)]) @ [(?n, d)]))"
    using Suc.prems(2) fresh by simp
  from Suc.prems(3) step have "fill_default_loop k d ?n ?n s1 = Inr (c', s')" by simp
  from Suc.IH [OF sg ds this] obtain zs where
    zs: "seg (nodes s') 0 ((ys @ [(c, w)]) @ (?n, d) # zs) 0"
    "distinct (map fst ((ys @ [(c, w)]) @ (?n, d) # zs))"
    "map snd zs = replicate k d" "c' = lastp ?n zs" "lists s' = lists s1" by blast
  have "lists s1 = lists s" by (simp add: s1_def)
  with zs show ?case by (intro exI [of _ "(?n, d) # zs"]) simp
qed

lemma seg_last_node:
  assumes "seg h pv (xs @ [(a, v)]) nx"
  shows "a \<noteq> 0 \<and> h a = Some \<lparr>data = v, pNext = nx, pPrev = lastp pv xs\<rparr>"
  using assms by simp

lemma list_fill_default_dll:
  assumes "list_fill_default d this num s = Inr s'"
  shows "\<exists>zs. dll s' this zs \<and> map snd zs = replicate (unat num) d"
proof (cases "num = 0")
  case True
  with assms have "s' = init_list this s" by (simp add: list_fill_default_def Let_def)
  then show ?thesis using True by (simp add: init_list_def dll_def)
next
  case False
  let ?s0 = "init_list this s"
  let ?n = "next_free s"
  from assms False have ca: "can_alloc ?s0"
    by (simp add: list_fill_default_def Let_def new_Node_eq split: if_splits)
  then have n: "?n \<noteq> 0" by (simp add: can_alloc_def init_list_def)
  define s1 where "s1 = s\<lparr>next_free := ?n + 1,
      lists := (lists s)(this := \<lparr>numElements = 0, pHead = ?n, pTail = 0\<rparr>),
      nodes := (nodes s)(?n \<mapsto> \<lparr>data = d, pNext = 0, pPrev = 0\<rparr>)\<rparr>"
  have e: "list_fill_default d this num s =
      seq (fill_default_loop (unat num - 1) d ?n ?n s1) (\<lambda>(pNew, s).
      seq (set_pNext pNew 0 s) (\<lambda>s.
      Inr (set_numElements this num (set_pTail this pNew s))))"
    using False ca n
    by (simp add: list_fill_default_def Let_def new_Node_eq s1_def set_pHead_def set_pPrev_def
        init_list_def)
  from assms obtain c' s2 s3 where
    l: "fill_default_loop (unat num - 1) d ?n ?n s1 = Inr (c', s2)"
    and sn: "set_pNext c' 0 s2 = Inr s3"
    and s': "s' = set_numElements this num (set_pTail this c' s3)"
    unfolding e by (auto simp: seq_def split: sum.splits)
  have sg: "seg (nodes s1) 0 ([] @ [(?n, d)]) 0" "distinct (map fst ([] @ [(?n, d)]))"
    using n by (simp_all add: s1_def set_pHead_def init_list_def)
  from fill_default_loop_spec [OF sg l] obtain zs where
    zs: "seg (nodes s2) 0 ((?n, d) # zs) 0" "distinct (map fst ((?n, d) # zs))"
    "map snd zs = replicate (unat num - 1) d" "c' = lastp ?n zs" "lists s2 = lists s1" by auto
  have "s3 = s2"
  proof (cases zs rule: rev_cases)
    case Nil
    with zs(1,4) sn show ?thesis by (simp add: upd_defs fun_upd_idem)
  next
    case (snoc zs' z)
    obtain a v where z: "z = (a, v)" by (cases z)
    from zs(1) have "seg (nodes s2) 0 (((?n, d) # zs') @ [(a, v)]) 0" by (simp add: snoc z)
    from seg_last_node [OF this] zs(4) sn show ?thesis
      by (simp add: snoc z upd_defs fun_upd_idem)
  qed
  have len: "length zs = unat num - 1" using zs(3) by (metis length_map length_replicate)
  have "unat num \<noteq> 0" using False by (simp add: unat_eq_zero)
  then have un: "Suc (unat num - 1) = unat num" by simp
  have "dll s' this ((?n, d) # zs)"
    using zs len un by (simp add: dll_def s' \<open>s3 = s2\<close> upd_defs s1_def init_list_def)
  moreover have "map snd ((?n, d) # zs) = replicate (unat num) d"
    using zs(3) un by (metis list.simps(9) replicate_Suc snd_conv)
  ultimately show ?thesis by (intro exI [of _ "(?n, d) # zs"]) simp
qed

section \<open>Frames\<close>

lemma seg_cong_heap:
  "(\<And>a. a \<in> fst ` set xs \<Longrightarrow> h' a = h a) \<Longrightarrow> seg h' pv xs nx = seg h pv xs nx"
proof (induction xs arbitrary: pv)
  case Nil
  show ?case by simp
next
  case (Cons x xs)
  obtain a v where x: "x = (a, v)" by (cases x)
  have "h' a = h a" using Cons.prems [of a] by (simp add: x)
  moreover have "seg h' a xs nx = seg h a xs nx"
    by (rule Cons.IH) (simp add: Cons.prems)
  ultimately show ?case by (simp add: x)
qed

lemma frame_seg:
  assumes "frame s s' this xs" "seg (nodes s) pv ys nx" "fst ` set ys \<inter> fst ` set xs = {}"
  shows "seg (nodes s') pv ys nx"
proof -
  have "nodes s' a = nodes s a" if "a \<in> fst ` set ys" for a
  proof -
    have "a \<notin> fst ` set xs" "nodes s a \<noteq> None"
      using that assms(3) seg_live [OF assms(2) that] by auto
    then show ?thesis using assms(1) by (simp add: frame_def)
  qed
  from seg_cong_heap [of ys "nodes s'" "nodes s", OF this] assms(2) show ?thesis by simp
qed

lemma frame_dll:
  assumes "frame s s' this xs" "dll s that ys" "that \<noteq> this"
    "fst ` set ys \<inter> fst ` set xs = {}"
  shows "dll s' that ys"
proof -
  have "seg (nodes s') 0 ys 0" using assms by (intro frame_seg [OF assms(1)]) (auto simp: dll_def)
  moreover have "lists s' that = lists s that" using assms by (simp add: frame_def)
  ultimately show ?thesis using assms(2) by (simp add: dll_def)
qed

lemma frame_refl: "frame s s this xs"
  by (simp add: frame_def)

lemma frame_trans:
  assumes "frame s s1 this xs" "frame s1 s2 this xs1"
    "\<And>a. a \<in> fst ` set xs1 \<Longrightarrow> a \<in> fst ` set xs \<or> nodes s a = None"
  shows "frame s s2 this xs"
  unfolding frame_def
proof (intro conjI allI impI)
  fix that assume "that \<noteq> this"
  then show "lists s2 that = lists s that" using assms(1,2) by (simp add: frame_def)
next
  fix a assume a: "a \<notin> fst ` set xs" "nodes s a \<noteq> None"
  then have 1: "nodes s1 a = nodes s a" using assms(1) by (simp add: frame_def)
  have "a \<notin> fst ` set xs1"
  proof
    assume "a \<in> fst ` set xs1"
    from assms(3) [OF this] a show False by simp
  qed
  then have "nodes s2 a = nodes s1 a" using assms(2) a(2) 1 by (simp add: frame_def)
  with 1 show "nodes s2 a = nodes s a" by simp
next
  show "objs s2 = objs s" using assms(1,2) by (simp add: frame_def)
qed

section \<open>The example stores are well-formed\<close>

lemma s_empty_dll: "dll s_empty 0 []"
  by (simp add: dll_def s_empty_def)

lemma s_123_dll: "dll s_123 0 [(1, 10), (2, 20), (3, 30)]"
  by (simp add: dll_def s_123_def)

lemma s_pair_dll: "dll s_pair 0 [(1, 10), (2, 20), (3, 30)]" "dll s_pair 1 [(4, 40)]"
  by (simp_all add: dll_def s_pair_def)

lemma s_123_room: "room s_123 3"
  by (simp add: room_def cells_def s_123_def upt_conv_Cons numeral_3_eq_3)

lemma s_pair_room: "room s_pair 3"
  by (simp add: room_def cells_def s_pair_def upt_conv_Cons numeral_3_eq_3)

section \<open>Removal at the ends and at a position\<close>

text \<open>
  Claim C7. On a well-formed list: \<^verbatim>\<open>pop_front\<close> and \<^verbatim>\<open>pop_back\<close> of an empty list
  return normally and leave the whole store as it was; \<^verbatim>\<open>erase\<close> of the past-the-end
  iterator returns the past-the-end iterator and leaves the store as it was (this part
  needs no well-formedness); \<^verbatim>\<open>erase\<close> of the node at address \<open>a\<close>, anywhere in the
  chain, returns normally with the address of the node that followed (past-the-end when
  \<open>a\<close> was the tail), the list is the old chain without that node, the cell \<open>a\<close> is
  released, and the count is one less.
\<close>

theorem pop_erase_tolerant:
  assumes "dll s this xs"
  shows "(empty this s \<longrightarrow> pop_front this s = Inr s \<and> pop_back this s = Inr s) \<and>
         erase this end_it s = Inr (end_it, s) \<and>
         (\<forall>ys a v zs. xs = ys @ (a, v) # zs \<longrightarrow>
            (\<exists>s'. erase this a s = Inr (first zs end_it, s') \<and> dll s' this (ys @ zs) \<and>
                  nodes s' a = None \<and>
                  numElements (lists s' this) = numElements (lists s this) - 1))"
proof (intro conjI impI allI)
  assume e: "empty this s"
  have "xs = []" using assms e dll_facts(1) [OF assms]
    by (simp add: dll_def empty_def first_eq_0)
  then have "pTail (lists s this) = 0" using assms by (simp add: dll_def)
  then show "pop_back this s = Inr s" by (simp add: pop_back_def)
  show "pop_front this s = Inr s" using e by (simp add: pop_front_def empty_def)
next
  show "erase this end_it s = Inr (end_it, s)" by (simp add: erase_def end_it_def)
next
  fix ys a v zs
  assume xs: "xs = ys @ (a, v) # zs"
  from erase_spec [of s this ys a v zs] assms xs
  obtain s' where s': "erase this a s = Inr (first zs 0, s')" "dll s' this (ys @ zs)"
    "nodes s' a = None" by blast
  have "unat (numElements (lists s' this)) = unat (numElements (lists s this) - 1)"
    using s'(2) assms xs by (simp add: dll_def count_dec)
  then have "numElements (lists s' this) = numElements (lists s this) - 1"
    by (simp only: word_unat_eq_iff)
  with s' show "\<exists>s'. erase this a s = Inr (first zs end_it, s') \<and> dll s' this (ys @ zs) \<and>
      nodes s' a = None \<and> numElements (lists s' this) = numElements (lists s this) - 1"
    by (auto simp: end_it_def)
qed

theorem pop_erase_tolerant_witness:
  "dll s_empty 0 [] \<and> empty 0 s_empty \<and> pop_front 0 s_empty = Inr s_empty \<and>
   pop_back 0 s_empty = Inr s_empty \<and> erase 0 end_it s_empty = Inr (end_it, s_empty) \<and>
   dll s_123 0 [(1, 10), (2, 20), (3, 30)] \<and>
   (\<exists>s'. erase 0 2 s_123 = Inr (3, s') \<and> dll s' 0 [(1, 10), (3, 30)] \<and> nodes s' 2 = None \<and>
         numElements (lists s' 0) = 2)"
proof -
  have e: "empty 0 s_empty" by (simp add: empty_def s_empty_def)
  have n: "numElements (lists s_123 0) - 1 = 2" by (simp add: s_123_def)
  from pop_erase_tolerant [OF s_empty_dll] e
  have 1: "pop_front 0 s_empty = Inr s_empty \<and> pop_back 0 s_empty = Inr s_empty \<and>
     erase 0 end_it s_empty = Inr (end_it, s_empty)" by blast
  from pop_erase_tolerant [OF s_123_dll, THEN conjunct2, THEN conjunct2, rule_format,
      of "[(1, 10)]" 2 20 "[(3, 30)]"]
  have 2: "\<exists>s'. erase 0 2 s_123 = Inr (3, s') \<and> dll s' 0 [(1, 10), (3, 30)] \<and>
     nodes s' 2 = None \<and> numElements (lists s' 0) = 2"
    by (simp add: n)
  show ?thesis using e 1 2 s_empty_dll s_123_dll by blast
qed

section \<open>Insertion at a position\<close>

text \<open>
  Claim C1. The claim holds for the copying overload (\<open>insert_copy_spec\<close> above: on a
  well-formed list with a free cell, the new node sits right before the position, the
  returned iterator is the new node, and the count grows by one) and fails for the
  rvalue overload. On the list 10, 20, 30, inserting 5 at \<^verbatim>\<open>begin()\<close> with the rvalue
  overload returns the past-the-end iterator and leaves the store as it was, the size
  still 3; the copying overload, at the same input, returns the new node 4 and gives
  5, 10, 20, 30 with size 4.
\<close>

theorem insert_move_inserts_nothing:
  "insert_move 0 (begin_it 0 s_123) 5 s_123 = Inr (end_it, s_123) \<and>
   size_of 0 s_123 = 3 \<and>
   (\<exists>s'. insert_copy 0 (begin_it 0 s_123) 5 s_123 = Inr (4, s') \<and> size_of 0 s' = 4 \<and>
         dll s' 0 [(4, 5), (1, 10), (2, 20), (3, 30)])"
proof -
  have b: "begin_it 0 s_123 = 1"
    by (simp add: begin_it_def s_123_def)
  have ca: "can_alloc s_123" "next_free s_123 = 4" by (simp_all add: can_alloc_def s_123_def)
  from insert_copy_spec [of s_123 0 "[]" "[(1, 10), (2, 20), (3, 30)]" 5] s_123_dll ca
  obtain s' where s': "insert_copy 0 1 5 s_123 = Inr (4, s')"
    "dll s' 0 [(4, 5), (1, 10), (2, 20), (3, 30)]"
    by auto
  from s'(2) have "unat (size_of 0 s') = unat (4 :: size_t)" by (simp add: dll_def size_of_def)
  then have "size_of 0 s' = 4" by (simp only: word_unat_eq_iff)
  moreover have "size_of 0 s_123 = 3" by (simp add: size_of_def s_123_def)
  ultimately show ?thesis using s' by (auto simp: insert_move_def b)
qed

section \<open>Move assignment\<close>

lemma assign_move_no_result: "assign_move this rhs s = Some r \<Longrightarrow> False"
proof (rule assign_move.raw_induct [where P = "\<lambda>_ _ _ _. False"])
  fix f :: "nat \<Rightarrow> nat \<Rightarrow> 'a state \<Rightarrow> (error + 'a state) option" and this rhs s r
  assume IH: "\<And>this rhs s r. f this rhs s = Some r \<Longrightarrow> False"
    and "Option.bind (f this rhs s)
          (\<lambda>r. case r of Inl e \<Rightarrow> Some (Inl e) | Inr s \<Rightarrow> Some (Inr s)) = Some r"
  then obtain y where "f this rhs s = Some y" by (auto simp: bind_eq_Some_conv)
  then show False by (rule IH)
qed

text \<open>
  Claim C2. Move assignment calls itself on the same operands before it does anything
  else, so for every pair of list objects and every store the call has no result:
  nothing is released, adopted or reset.
\<close>

theorem assign_move_never_returns: "assign_move this rhs s = None"
  using assign_move_no_result [of this rhs s] by (cases "assign_move this rhs s") auto

section \<open>Swap\<close>

text \<open>
  Claim C3. With 10, 20, 30 in list 0 and 40 in list 1: the member \<^verbatim>\<open>swap\<close> returns the
  store it was given; the free \<^verbatim>\<open>swap\<close> leaves both heads, both tails, all nodes and
  the count of list 1 as they were and sets the count of list 0 to 99.
\<close>

theorem swap_exchanges_nothing:
  "dll s_pair 0 [(1, 10), (2, 20), (3, 30)] \<and> dll s_pair 1 [(4, 40)] \<and>
   swap_member 0 1 s_pair = s_pair \<and>
   lists (swap_free 0 1 s_pair) 0 = \<lparr>numElements = 99, pHead = 1, pTail = 3\<rparr> \<and>
   lists (swap_free 0 1 s_pair) 1 = \<lparr>numElements = 1, pHead = 4, pTail = 4\<rparr> \<and>
   nodes (swap_free 0 1 s_pair) = nodes s_pair"
  by (simp add: dll_def s_pair_def swap_member_def swap_free_def set_numElements_def)

section \<open>Access to the ends\<close>

text \<open>
  Claim C4, as stated, fails: on the empty list of \<open>s_empty\<close> both \<^verbatim>\<open>front\<close> and
  \<^verbatim>\<open>back\<close> return normally, with a reference to a freshly allocated object (cell 1,
  holding the default value) that stays live in the store.
\<close>

theorem front_back_on_empty_counterexample:
  "empty 0 s_empty \<and> size_of 0 s_empty = 0 \<and>
   front 7 0 s_empty = Inr (ObjAt 1, s_empty\<lparr>objs := [1 \<mapsto> 7], next_free := 2\<rparr>) \<and>
   back_elem 7 0 s_empty = Inr (ObjAt 1, s_empty\<lparr>objs := [1 \<mapsto> 7], next_free := 2\<rparr>)"
  by (simp add: empty_def size_of_def front_def back_elem_def new_T_def s_empty_def)

text \<open>
  Claim C4, amended. On a well-formed list: if the list is not empty, \<^verbatim>\<open>front\<close> and
  \<^verbatim>\<open>back\<close> return a reference to the element of the first and of the last node and
  leave the store as it was; if it is empty, they allocate an object holding the default
  value, return a reference to it and leave the list objects and the nodes as they were,
  and the only failure is the allocator's.
\<close>

theorem front_back_reference:
  assumes "dll s this xs"
  shows "(\<forall>a v ys. xs = (a, v) # ys \<longrightarrow>
            front d this s = Inr (DataOf a, s) \<and> read_ref s (DataOf a) = Inr v) \<and>
         (\<forall>ys a v. xs = ys @ [(a, v)] \<longrightarrow>
            back_elem d this s = Inr (DataOf a, s) \<and> read_ref s (DataOf a) = Inr v) \<and>
         (xs = [] \<longrightarrow>
            front d this s =
              (if can_alloc s
               then Inr (ObjAt (next_free s),
                      s\<lparr>objs := (objs s)(next_free s \<mapsto> d), next_free := next_free s + 1\<rparr>)
               else Inl BadAlloc) \<and>
            back_elem d this s = front d this s)"
proof (intro conjI allI impI)
  fix a v ys
  assume "xs = (a, v) # ys"
  with assms have "numElements (lists s this) \<noteq> 0" "pHead (lists s this) = a" "a \<noteq> 0"
    "nodes s a = Some \<lparr>data = v, pNext = first ys 0, pPrev = 0\<rparr>"
    by (auto simp: dll_def)
  then show "front d this s = Inr (DataOf a, s)" "read_ref s (DataOf a) = Inr v"
    by (simp_all add: front_def read_ref_def)
next
  fix ys a v
  assume "xs = ys @ [(a, v)]"
  with assms have "numElements (lists s this) \<noteq> 0" "pTail (lists s this) = a" "a \<noteq> 0"
    "nodes s a = Some \<lparr>data = v, pNext = 0, pPrev = lastp 0 ys\<rparr>"
    by (auto simp: dll_def)
  then show "back_elem d this s = Inr (DataOf a, s)" "read_ref s (DataOf a) = Inr v"
    by (simp_all add: back_elem_def read_ref_def)
next
  assume "xs = []"
  with assms have n: "numElements (lists s this) = 0"
    by (simp add: dll_def unat_eq_zero)
  then show "front d this s =
      (if can_alloc s
       then Inr (ObjAt (next_free s),
              s\<lparr>objs := (objs s)(next_free s \<mapsto> d), next_free := next_free s + 1\<rparr>)
       else Inl BadAlloc)"
    by (auto simp: front_def new_T_def can_alloc_def Let_def)
  from n show "back_elem d this s = front d this s"
    by (simp add: front_def back_elem_def)
qed

theorem front_back_reference_witness:
  "dll s_123 0 [(1, 10), (2, 20), (3, 30)] \<and>
   front 7 0 s_123 = Inr (DataOf 1, s_123) \<and> read_ref s_123 (DataOf 1) = Inr 10 \<and>
   back_elem 7 0 s_123 = Inr (DataOf 3, s_123) \<and> read_ref s_123 (DataOf 3) = Inr 30 \<and>
   dll s_empty 0 [] \<and> can_alloc s_empty \<and>
   front 7 0 s_empty =
     Inr (ObjAt 1, s_empty\<lparr>objs := (objs s_empty)(1 \<mapsto> 7), next_free := 1 + 1\<rparr>) \<and>
   back_elem 7 0 s_empty = front 7 0 s_empty"
proof -
  have ca: "can_alloc s_empty" "next_free s_empty = 1"
    by (simp_all add: can_alloc_def s_empty_def)
  note a = front_back_reference [OF s_123_dll, of 7]
  note b = front_back_reference [OF s_empty_dll, of 7]
  from a have 1: "front 7 0 s_123 = Inr (DataOf 1, s_123) \<and> read_ref s_123 (DataOf 1) = Inr 10"
    by blast
  from a [THEN conjunct2, THEN conjunct1, rule_format, of "[(1, 10), (2, 20)]" 3 30]
  have 2: "back_elem 7 0 s_123 = Inr (DataOf 3, s_123) \<and> read_ref s_123 (DataOf 3) = Inr 30"
    by simp
  from b ca have 3: "front 7 0 s_empty =
     Inr (ObjAt 1, s_empty\<lparr>objs := (objs s_empty)(1 \<mapsto> 7), next_free := 1 + 1\<rparr>) \<and>
     back_elem 7 0 s_empty = front 7 0 s_empty"
    by simp
  show ?thesis using 1 2 3 ca s_123_dll s_empty_dll by blast
qed

section \<open>Assignment from an initializer list\<close>

text \<open>
  Claim C5. Assigning the sequence 7, 8 to the list 10, 20, 30 returns the store it was
  given: the list still holds 10, 20, 30.
\<close>

theorem assign_il_keeps_old_elements:
  "assign_il 0 [7, 8] s_123 = Inr s_123 \<and> dll s_123 0 [(1, 10), (2, 20), (3, 30)]"
  by (simp add: assign_il_def s_123_dll)

section \<open>Move construction\<close>

text \<open>
  Claim C8. Move construction of \<open>this\<close> from a well-formed list \<open>rhs\<close> (another
  object) gives \<open>this\<close> the three members of \<open>rhs\<close> as they were, touches no node,
  and sets the members of \<open>rhs\<close> to the empty state; so \<open>this\<close> is the chain \<open>rhs\<close>
  was, cell for cell, and \<open>rhs\<close> is the empty list.
\<close>

theorem list_move_adopts:
  assumes "this \<noteq> rhs" "dll s rhs xs"
  shows "dll (list_move this rhs s) this xs \<and> dll (list_move this rhs s) rhs [] \<and>
         lists (list_move this rhs s) this = lists s rhs \<and>
         lists (list_move this rhs s) rhs = \<lparr>numElements = 0, pHead = 0, pTail = 0\<rparr> \<and>
         nodes (list_move this rhs s) = nodes s"
  using assms by (simp add: list_move_def dll_def upd_defs Let_def)

theorem list_move_adopts_witness:
  "(1::nat) \<noteq> 0 \<and> dll s_123 0 [(1, 10), (2, 20), (3, 30)] \<and>
   dll (list_move 1 0 s_123) 1 [(1, 10), (2, 20), (3, 30)] \<and>
   dll (list_move 1 0 s_123) 0 [] \<and> size_of 0 (list_move 1 0 s_123) = 0 \<and>
   begin_it 0 (list_move 1 0 s_123) = end_it"
proof -
  have ne: "(1::nat) \<noteq> 0" by simp
  from list_move_adopts [OF ne s_123_dll]
  show ?thesis using ne s_123_dll by (simp add: size_of_def begin_it_def end_it_def)
qed

section \<open>Sequences of mutations keep the structure\<close>

lemma walk_next_seg:
  "seg h pv xs 0 \<Longrightarrow> walk_next h (length xs) (first xs 0) = Some (map fst xs)"
  by (induction xs arbitrary: pv) auto

lemma walk_prev_seg:
  "seg h 0 xs nx \<Longrightarrow> walk_prev h (length xs) (lastp 0 xs) = Some (rev (map fst xs))"
  by (induction xs arbitrary: nx rule: rev_induct) auto

lemma lastp_eq_0: "0 \<notin> fst ` set xs \<Longrightarrow> (lastp pv xs = 0) = (xs = [] \<and> pv = 0)"
  by (induction xs arbitrary: pv) auto

lemma seg_linked:
  assumes "seg h 0 xs 0" "a \<in> fst ` set xs"
  shows "linked h a"
proof -
  from assms(2) obtain v where "(a, v) \<in> set xs" by auto
  then obtain ys zs where xs: "xs = ys @ (a, v) # zs" by (auto simp: in_set_conv_decomp)
  show ?thesis
  proof (cases zs)
    case Nil
    show ?thesis
    proof (cases ys rule: rev_cases)
      case Nil
      then show ?thesis using assms(1) \<open>zs = []\<close> xs by (auto simp: linked_def)
    next
      case (snoc ys' y)
      obtain t w where y: "y = (t, w)" by (cases y)
      show ?thesis using assms(1) unfolding xs snoc y \<open>zs = []\<close> by (auto simp: linked_def)
    qed
  next
    case (Cons z zs')
    obtain b u where z: "z = (b, u)" by (cases z)
    show ?thesis
    proof (cases ys rule: rev_cases)
      case Nil
      then show ?thesis using assms(1) unfolding xs Cons z by (auto simp: linked_def)
    next
      case (snoc ys' y)
      obtain t w where y: "y = (t, w)" by (cases y)
      show ?thesis using assms(1) unfolding xs snoc y Cons z by (auto simp: linked_def)
    qed
  qed
qed

lemma dll_structural_inv:
  assumes "dll s this xs"
  shows "structural_inv s this"
proof -
  note nz = dll_facts(1) [OF assms]
  have sg: "seg (nodes s) 0 xs 0" using assms by (simp add: dll_def)
  have 1: "walk_next (nodes s) (length xs) (first xs 0) = Some (map fst xs)"
    using sg by (rule walk_next_seg)
  have 2: "walk_prev (nodes s) (length xs) (lastp 0 xs) = Some (rev (map fst xs))"
    using sg by (rule walk_prev_seg)
  have 3: "list_all (linked (nodes s)) (map fst xs)"
    using seg_linked [OF sg] by (auto simp: list_all_iff)
  have 4: "(numElements (lists s this) = 0) = (xs = [])"
    using assms by (auto simp: dll_def unat_eq_zero [symmetric])
  show ?thesis using assms 1 2 3 4 nz
    by (simp add: structural_inv_def dll_def Let_def first_eq_0 lastp_eq_0)
qed

lemma advance_seg:
  assumes "seg (nodes s) pv zs 0" "advance s (first zs 0) k = Inr it"
  shows "\<exists>ys' zs'. zs = ys' @ zs' \<and> length ys' = k \<and> it = first zs' 0"
  using assms
proof (induction k arbitrary: zs pv)
  case 0
  then show ?case by auto
next
  case (Suc k)
  show ?case
  proof (cases zs)
    case Nil
    with Suc.prems show ?thesis by (simp add: it_incr_def get_node_def)
  next
    case (Cons z zs1)
    obtain a v where z: "z = (a, v)" by (cases z)
    from Suc.prems have "seg (nodes s) a zs1 0" "advance s (first zs1 0) k = Inr it"
      unfolding Cons z by (auto simp: it_incr_def)
    from Suc.IH [OF this] obtain ys' zs' where "zs1 = ys' @ zs'" "length ys' = k" "it = first zs' 0"
      by blast
    then have "zs = (z # ys') @ zs' \<and> length (z # ys') = Suc k \<and> it = first zs' 0"
      using Cons by simp
    then show ?thesis by blast
  qed
qed

lemma advance_dll:
  assumes "dll s this xs" "advance s (begin_it this s) k = Inr it"
  shows "\<exists>ys zs. xs = ys @ zs \<and> length ys = k \<and> it = first zs 0"
  using advance_seg [of s 0 xs k it] assms by (simp add: dll_def begin_it_def)

lemma push_back_move_eq: "push_back_move = push_back"
  by (intro ext) (simp add: push_back_move_def push_back_def)

lemma push_front_move_eq: "push_front_move = push_front"
  by (intro ext) (simp add: push_front_move_def push_front_def)

lemma op_frameI:
  assumes "dll s' this xs'" "frame s s' this xs"
    "\<And>a. a \<in> fst ` set xs' \<Longrightarrow> a \<in> fst ` set xs \<or> nodes s a = None"
  shows "\<exists>xs'. dll s' this xs' \<and> frame s s' this xs \<and>
           (\<forall>a \<in> fst ` set xs'. a \<in> fst ` set xs \<or> nodes s a = None)"
proof (intro exI [of _ xs'] conjI ballI)
  show "dll s' this xs'" "frame s s' this xs" by fact+
  show "a \<in> fst ` set xs \<or> nodes s a = None" if "a \<in> fst ` set xs'" for a
    using that by (rule assms(3))
qed

lemma apply_op_frame:
  assumes "dll s this xs" "apply_op this x s = Inr s'"
  shows "\<exists>xs'. dll s' this xs' \<and> frame s s' this xs \<and>
           (\<forall>a \<in> fst ` set xs'. a \<in> fst ` set xs \<or> nodes s a = None)"
proof (cases x)
  case (Push_front v)
  with assms have pf: "push_front this v s = Inr s'" by simp
  note ca = push_front_alloc [OF pf]
  from push_front_spec [OF assms(1) ca, of v] pf
  have "dll s' this ((next_free s, v) # xs)" "frame s s' this xs" by auto
  then show ?thesis by (rule op_frameI) (use ca in \<open>auto simp: can_alloc_def\<close>)
next
  case (Push_front_move v)
  with assms have pf: "push_front this v s = Inr s'" by (simp add: push_front_move_eq)
  note ca = push_front_alloc [OF pf]
  from push_front_spec [OF assms(1) ca, of v] pf
  have "dll s' this ((next_free s, v) # xs)" "frame s s' this xs" by auto
  then show ?thesis by (rule op_frameI) (use ca in \<open>auto simp: can_alloc_def\<close>)
next
  case (Push_back v)
  with assms have pf: "push_back this v s = Inr s'" by simp
  note ca = push_back_alloc [OF pf]
  from push_back_spec [OF assms(1) ca, of v] pf
  have "dll s' this (xs @ [(next_free s, v)])" "frame s s' this xs" by auto
  then show ?thesis by (rule op_frameI) (use ca in \<open>auto simp: can_alloc_def\<close>)
next
  case (Push_back_move v)
  with assms have pf: "push_back this v s = Inr s'" by (simp add: push_back_move_eq)
  note ca = push_back_alloc [OF pf]
  from push_back_spec [OF assms(1) ca, of v] pf
  have "dll s' this (xs @ [(next_free s, v)])" "frame s s' this xs" by auto
  then show ?thesis by (rule op_frameI) (use ca in \<open>auto simp: can_alloc_def\<close>)
next
  case Pop_front
  show ?thesis
  proof (cases xs)
    case Nil
    with assms Pop_front have "s' = s" by (auto simp: pop_front_def dll_def)
    with assms(1) show ?thesis by (intro op_frameI [of s' this xs]) (auto simp: frame_refl)
  next
    case (Cons y ys)
    obtain a v where "y = (a, v)" by (cases y)
    with assms Pop_front Cons pop_front_spec [of s this a v ys]
    have "dll s' this ys" "frame s s' this xs" by auto
    then show ?thesis by (rule op_frameI) (use Cons in auto)
  qed
next
  case Pop_back
  show ?thesis
  proof (cases xs rule: rev_cases)
    case Nil
    with assms Pop_back have "s' = s" by (auto simp: pop_back_def dll_def)
    with assms(1) show ?thesis by (intro op_frameI [of s' this xs]) (auto simp: frame_refl)
  next
    case (snoc ys y)
    obtain a v where "y = (a, v)" by (cases y)
    with assms Pop_back snoc pop_back_spec [of s this ys a v]
    have "dll s' this ys" "frame s s' this xs" by auto
    then show ?thesis by (rule op_frameI) (use snoc in auto)
  qed
next
  case (Insert k v)
  with assms(2) obtain it r where it: "advance s (begin_it this s) k = Inr it"
    and ins: "insert_copy this it v s = Inr (r, s')"
    by (auto simp: seq_def split: sum.splits)
  from advance_dll [OF assms(1) it] obtain ys zs where xs: "xs = ys @ zs" "it = first zs 0"
    by blast
  note ca = insert_copy_alloc [OF ins]
  from insert_copy_spec [of s this ys zs v] assms(1) ca xs ins
  have "dll s' this (ys @ (next_free s, v) # zs)" "frame s s' this xs" by auto
  then show ?thesis by (rule op_frameI) (use ca xs in \<open>auto simp: can_alloc_def\<close>)
next
  case (Insert_move k v)
  with assms have "s' = s" by (auto simp: insert_move_def seq_def split: sum.splits)
  with assms(1) show ?thesis by (intro op_frameI [of s' this xs]) (auto simp: frame_refl)
next
  case (Erase k)
  with assms(2) obtain it r where it: "advance s (begin_it this s) k = Inr it"
    and er: "erase this it s = Inr (r, s')"
    by (auto simp: seq_def split: sum.splits)
  from advance_dll [OF assms(1) it] obtain ys zs where xs: "xs = ys @ zs" "it = first zs 0"
    by blast
  show ?thesis
  proof (cases zs)
    case Nil
    with er xs have "s' = s" by (auto simp: erase_def end_it_def)
    with assms(1) show ?thesis by (intro op_frameI [of s' this xs]) (auto simp: frame_refl)
  next
    case (Cons z zs')
    obtain a v where "z = (a, v)" by (cases z)
    with erase_spec [of s this ys a v zs'] assms(1) xs Cons er
    have "dll s' this (ys @ zs')" "frame s s' this xs" by auto
    then show ?thesis by (rule op_frameI) (use xs Cons in auto)
  qed
qed

lemma run_dll:
  assumes "dll s this xs" "run this ops s = Inr s'"
  shows "\<exists>xs'. dll s' this xs'"
  using assms
proof (induction ops arbitrary: s xs)
  case Nil
  then show ?case by auto
next
  case (Cons x ops)
  from Cons.prems(2) obtain s1 where 1: "apply_op this x s = Inr s1" "run this ops s1 = Inr s'"
    by (auto simp: seq_def split: sum.splits)
  from apply_op_frame [OF Cons.prems(1) 1(1)] obtain xs1 where "dll s1 this xs1" by auto
  from Cons.IH [OF this 1(2)] show ?case .
qed

lemma run_others:
  assumes "dll s this xs" "dll s that ys" "that \<noteq> this"
    "fst ` set xs \<inter> fst ` set ys = {}" "run this ops s = Inr s'"
  shows "dll s' that ys"
  using assms
proof (induction ops arbitrary: s xs)
  case Nil
  then show ?case by simp
next
  case (Cons x ops)
  from Cons.prems(5) obtain s1 where 1: "apply_op this x s = Inr s1" "run this ops s1 = Inr s'"
    by (auto simp: seq_def split: sum.splits)
  from apply_op_frame [OF Cons.prems(1) 1(1)] obtain xs1 where xs1: "dll s1 this xs1"
    "frame s s1 this xs" "\<forall>a \<in> fst ` set xs1. a \<in> fst ` set xs \<or> nodes s a = None" by blast
  have d1: "dll s1 that ys"
    using xs1(2) Cons.prems(2,3) by (rule frame_dll) (use Cons.prems(4) in auto)
  have "fst ` set xs1 \<inter> fst ` set ys = {}"
  proof (rule ccontr)
    assume "fst ` set xs1 \<inter> fst ` set ys \<noteq> {}"
    then obtain a where a: "a \<in> fst ` set xs1" "a \<in> fst ` set ys" by blast
    from bspec [OF xs1(3) a(1)] dll_facts(2) [OF Cons.prems(2) a(2)]
    have "a \<in> fst ` set xs" by simp
    with a(2) Cons.prems(4) show False by blast
  qed
  from Cons.IH [OF xs1(1) d1 Cons.prems(3) this 1(2)] show ?case .
qed

lemmas op_defs = push_back_def push_front_def push_back_move_def push_front_move_def
  new_Node_def upd_defs begin_it_def it_incr_def insert_copy_def empty_def end_it_def
  insert_move_def erase_def delete_Node_def pop_back_def pop_front_def


text \<open>
  Claim C6. Start from a well-formed list (every constructor builds one) and run any
  finite sequence of \<^verbatim>\<open>push_front\<close>, \<^verbatim>\<open>push_back\<close> (either overload), \<^verbatim>\<open>pop_front\<close>,
  \<^verbatim>\<open>pop_back\<close>, \<^verbatim>\<open>insert\<close> (either overload) and \<^verbatim>\<open>erase\<close>, the positions reached
  by stepping an iterator from \<^verbatim>\<open>begin()\<close>. If the run comes to its end (no allocation
  fails and no iterator is stepped past the end), the structural invariants hold of the
  list: the count is the number of nodes reachable forwards from the head and backwards
  from the tail, head, tail and count are null or zero together, and all links are
  symmetric.
\<close>

theorem structural_invariants_preserved:
  assumes "dll s this xs" "run this ops s = Inr s'"
  shows "structural_inv s' this"
  using run_dll [OF assms] dll_structural_inv by blast


theorem structural_invariants_preserved_witness:
  "dll s_empty 0 [] \<and>
   (\<exists>s'. run 0 [Push_back 1, Push_front 2, Insert 1 9, Insert_move 0 4, Erase 0,
                 Push_back_move 5, Pop_back, Push_front_move 6, Pop_front] s_empty = Inr s' \<and>
         structural_inv s' 0 \<and> size_of 0 s' = 2 \<and> dll s' 0 [(3, 9), (1, 1)])"
proof -
  have "\<exists>s'. run 0 [Push_back 1, Push_front 2, Insert 1 9, Insert_move 0 4, Erase 0,
                 Push_back_move 5, Pop_back, Push_front_move 6, Pop_front] s_empty = Inr s' \<and>
         size_of 0 s' = 2 \<and> dll s' 0 [(3, 9), (1, 1)]"
    by (simp add: op_defs s_empty_def size_of_def dll_def)
  then obtain s' where s': "run 0 [Push_back 1, Push_front 2, Insert 1 9, Insert_move 0 4, Erase 0,
                 Push_back_move 5, Pop_back, Push_front_move 6, Pop_front] s_empty = Inr s'"
    "size_of 0 s' = 2" "dll s' 0 [(3, 9), (1, 1)]" by blast
  from structural_invariants_preserved [OF s_empty_dll s'(1)] s' s_empty_dll
  show ?thesis by blast
qed


section \<open>Clearing and copying\<close>

lemma clear_loop_seg:
  assumes "seg (nodes s) pv xs 0" "distinct (map fst xs)" "pHead (lists s this) = first xs 0"
  shows "\<exists>s'. clear_loop this s = Inr s' \<and>
           nodes s' = (\<lambda>a. if a \<in> fst ` set xs then None else nodes s a) \<and>
           lists s' = (lists s)(this := (lists s this)\<lparr>pHead := 0\<rparr>) \<and>
           objs s' = objs s \<and> next_free s' = next_free s"
  using assms
proof (induction xs arbitrary: s pv)
  case Nil
  then have "(lists s this)\<lparr>pHead := 0\<rparr> = lists s this"
    by (cases "lists s this") simp
  then have e: "(lists s)(this := (lists s this)\<lparr>pHead := 0\<rparr>) = lists s"
    by simp
  have "clear_loop this s = Inr s"
    using Nil.prems(3) by (simp add: clear_loop.simps [of this s])
  then show ?case by (simp add: e)
next
  case (Cons x xs)
  obtain a v where x: "x = (a, v)" by (cases x)
  from Cons.prems have a: "a \<noteq> 0" "nodes s a = Some \<lparr>data = v, pNext = first xs 0, pPrev = pv\<rparr>"
    "pHead (lists s this) = a" "a \<notin> fst ` set xs" "seg (nodes s) a xs 0" "distinct (map fst xs)"
    by (auto simp: x)
  define s1 where "s1 = (set_pHead this (first xs 0) s)\<lparr>nodes := (nodes s)(a := None)\<rparr>"
  have step: "clear_loop this s = clear_loop this s1"
    using a by (simp add: clear_loop.simps [of this s] delete_Node_def s1_def set_pHead_def)
  have "seg (nodes s1) a xs 0" "pHead (lists s1 this) = first xs 0"
    using a by (simp_all add: s1_def set_pHead_def)
  from Cons.IH [OF this(1) a(6) this(2)]
  obtain s' where s': "clear_loop this s1 = Inr s'"
    "nodes s' = (\<lambda>b. if b \<in> fst ` set xs then None else nodes s1 b)"
    "lists s' = (lists s1)(this := (lists s1 this)\<lparr>pHead := 0\<rparr>)"
    "objs s' = objs s1" "next_free s' = next_free s1" by blast
  have 1: "nodes s' = (\<lambda>b. if b \<in> fst ` set (x # xs) then None else nodes s b)"
    using s'(2) by (auto simp: s1_def set_pHead_def x)
  have 2: "lists s' = (lists s)(this := (lists s this)\<lparr>pHead := 0\<rparr>)"
    using s'(3) by (simp add: s1_def set_pHead_def)
  have 3: "objs s' = objs s" "next_free s' = next_free s"
    using s'(4,5) by (simp_all add: s1_def set_pHead_def)
  have "clear_loop this s = Inr s'" using step s'(1) by simp
  with 1 2 3 show ?case by blast
qed

lemma clear_spec:
  assumes "dll s this xs"
  shows "\<exists>s'. clear this s = Inr s' \<and> dll s' this [] \<and>
           nodes s' = (\<lambda>a. if a \<in> fst ` set xs then None else nodes s a) \<and>
           frame s s' this xs \<and> next_free s' = next_free s"
proof -
  from assms have "seg (nodes s) 0 xs 0" "distinct (map fst xs)"
    "pHead (lists s this) = first xs 0" by (simp_all add: dll_def)
  from clear_loop_seg [OF this] obtain s1 where s1: "clear_loop this s = Inr s1"
    "nodes s1 = (\<lambda>a. if a \<in> fst ` set xs then None else nodes s a)"
    "lists s1 = (lists s)(this := (lists s this)\<lparr>pHead := 0\<rparr>)"
    "objs s1 = objs s" "next_free s1 = next_free s" by blast
  then show ?thesis
    by (simp add: clear_def dll_def frame_def upd_defs)
qed


lemma push_back_no_alloc: "\<not> can_alloc s \<Longrightarrow> push_back this v s = Inl BadAlloc"
  by (simp add: push_back_def new_Node_eq)

lemma copy_from_spec:
  assumes "dll s this xs" "seg (nodes s) pv ys 0" "fst ` set xs \<inter> fst ` set ys = {}"
  shows "case copy_from this (first ys 0) s of
           Inl e \<Rightarrow> e = BadAlloc
         | Inr s' \<Rightarrow> copied s s' this xs ys"
  using assms
proof (induction ys arbitrary: s xs pv)
  case Nil
  have "dll s this (xs @ [])" using Nil.prems(1) by simp
  then have "copied s s this xs []"
    unfolding copied_def by (intro exI [of _ "[]"]) (simp add: frame_refl)
  then show ?case by (simp add: copy_from.simps [of this 0 s])
next
  case (Cons y ys)
  obtain a v where y: "y = (a, v)" by (cases y)
  from Cons.prems(2) have a: "a \<noteq> 0"
    "nodes s a = Some \<lparr>data = v, pNext = first ys 0, pPrev = pv\<rparr>" "seg (nodes s) a ys 0"
    by (simp_all add: y)
  have axs: "a \<notin> fst ` set xs" using Cons.prems(3) by (auto simp: y)
  show ?case
  proof (cases "can_alloc s")
    case False
    then show ?thesis using a
      by (simp add: y copy_from.simps [of this a s] push_back_no_alloc)
  next
    case True
    let ?n = "next_free s"
    from push_back_spec [OF Cons.prems(1) True, of v]
    obtain s1 where s1: "push_back this v s = Inr s1" "dll s1 this (xs @ [(?n, v)])"
      "frame s s1 this xs" by blast
    from push_back_dom [OF s1(1)] have n: "nodes s ?n = None"
      "dom (nodes s1) = insert ?n (dom (nodes s))" by simp_all
    have nys: "?n \<notin> fst ` set ys" using seg_live [OF a(3)] n(1) by blast
    have a1: "nodes s1 a = nodes s a" using s1(3) axs a(2) by (simp add: frame_def)
    have step: "copy_from this (first (y # ys) 0) s = copy_from this (first ys 0) s1"
      using a a1 s1(1) by (simp add: y copy_from.simps [of this a s])
    have sg: "seg (nodes s1) a ys 0"
      using Cons.prems(3) by (intro frame_seg [OF s1(3) a(3)]) (auto simp: y)
    have dj: "fst ` set (xs @ [(?n, v)]) \<inter> fst ` set ys = {}"
      using Cons.prems(3) nys by (auto simp: y)
    note IH = Cons.IH [OF s1(2) sg dj]
    show ?thesis
    proof (cases "copy_from this (first ys 0) s1")
      case (Inl e)
      with IH step show ?thesis by simp
    next
      case (Inr s')
      with IH obtain zs where zs: "dll s' this ((xs @ [(?n, v)]) @ zs)" "map snd zs = map snd ys"
        "fst ` set zs \<inter> dom (nodes s1) = {}" "frame s1 s' this (xs @ [(?n, v)])"
        by (auto simp: copied_def)
      have f: "frame s s' this xs"
        using s1(3) zs(4) by (rule frame_trans) (use n(1) in auto)
      have "dll s' this (xs @ ((?n, v) # zs))" "map snd ((?n, v) # zs) = map snd (y # ys)"
        "fst ` set ((?n, v) # zs) \<inter> dom (nodes s) = {}"
        using zs n by (auto simp: y)
      with f have "copied s s' this xs (y # ys)" unfolding copied_def by blast
      with Inr step show ?thesis by simp
    qed
  qed
qed


lemma cells_Suc: "cells s (Suc n) = next_free s # map (\<lambda>i. next_free s + 1 + of_nat i) [0..<n]"
  by (simp add: cells_def map_upt_Suc add.assoc del: upt_Suc)

lemma push_back_next_free:
  assumes "push_back this v s = Inr s'"
  shows "next_free s' = next_free s + 1 \<and> objs s' = objs s"
  using assms
  by (auto simp: push_back_def new_Node_def Let_def set_pHead_def set_pTail_def
      set_numElements_def set_pNext_def set_pPrev_def get_node_def seq_def
      split: if_splits sum.splits option.splits)

lemma room_can_alloc: "room s (Suc n) \<Longrightarrow> can_alloc s"
  by (simp add: room_def cells_Suc can_alloc_def)

lemma room_push_back:
  assumes "room s (Suc n)" "push_back this v s = Inr s'"
  shows "room s' n"
proof -
  from push_back_next_free [OF assms(2)] push_back_dom [OF assms(2)]
  have s': "next_free s' = next_free s + 1" "objs s' = objs s"
    "dom (nodes s') = insert (next_free s) (dom (nodes s))" by simp_all
  have c: "cells s (Suc n) = next_free s # cells s' n"
    by (simp add: cells_Suc) (simp add: cells_def s'(1))
  have keep: "nodes s' a = None" if "a \<noteq> next_free s" "nodes s a = None" for a
  proof -
    have "a \<notin> dom (nodes s')" using that s'(3) by (simp add: domIff)
    then show ?thesis by (simp add: domIff)
  qed
  from assms(1) have d: "distinct (cells s' n)" "next_free s \<notin> set (cells s' n)"
    and fr: "\<And>a. a \<in> set (cells s' n) \<Longrightarrow> a \<noteq> 0 \<and> nodes s a = None \<and> objs s a = None"
    by (simp_all add: room_def c list_all_iff)
  have "a \<noteq> 0 \<and> nodes s' a = None \<and> objs s' a = None" if "a \<in> set (cells s' n)" for a
  proof -
    have "a \<noteq> next_free s" using that d(2) by auto
    with fr [OF that] keep [of a] s'(2) show ?thesis by simp
  qed
  with d(1) show ?thesis by (simp add: room_def list_all_iff)
qed

lemma copy_from_returns:
  assumes "dll s this xs" "seg (nodes s) pv ys 0" "fst ` set xs \<inter> fst ` set ys = {}"
    "room s (length ys)"
  shows "\<exists>s'. copy_from this (first ys 0) s = Inr s'"
  using assms
proof (induction ys arbitrary: s xs pv)
  case Nil
  show ?case by (simp add: copy_from.simps [of this 0 s])
next
  case (Cons y ys)
  obtain a v where y: "y = (a, v)" by (cases y)
  from Cons.prems(2) have a: "a \<noteq> 0"
    "nodes s a = Some \<lparr>data = v, pNext = first ys 0, pPrev = pv\<rparr>" "seg (nodes s) a ys 0"
    by (simp_all add: y)
  have axs: "a \<notin> fst ` set xs" using Cons.prems(3) by (auto simp: y)
  have ca: "can_alloc s" using Cons.prems(4) by (simp add: room_can_alloc)
  let ?n = "next_free s"
  from push_back_spec [OF Cons.prems(1) ca, of v]
  obtain s1 where s1: "push_back this v s = Inr s1" "dll s1 this (xs @ [(?n, v)])"
    "frame s s1 this xs" by blast
  from push_back_dom [OF s1(1)] have n: "nodes s ?n = None" by simp
  have nys: "?n \<notin> fst ` set ys" using seg_live [OF a(3)] n by blast
  have a1: "nodes s1 a = nodes s a" using s1(3) axs a(2) by (simp add: frame_def)
  have step: "copy_from this (first (y # ys) 0) s = copy_from this (first ys 0) s1"
    using a a1 s1(1) by (simp add: y copy_from.simps [of this a s])
  have sg: "seg (nodes s1) a ys 0"
    using Cons.prems(3) by (intro frame_seg [OF s1(3) a(3)]) (auto simp: y)
  have dj: "fst ` set (xs @ [(?n, v)]) \<inter> fst ` set ys = {}"
    using Cons.prems(3) nys by (auto simp: y)
  have rm: "room s1 (length ys)" using Cons.prems(4) s1(1) by (simp add: room_push_back)
  from Cons.IH [OF s1(2) sg dj rm] step show ?case by simp
qed

lemma copied_source:
  assumes "dll s0 rhs ys" "this \<noteq> rhs" "fst ` set xs0 \<inter> fst ` set ys = {}"
    "copied s0 s' this xs0 ys"
  shows "\<exists>zs. dll s' this (xs0 @ zs) \<and> map snd zs = map snd ys \<and>
           fst ` set zs \<inter> fst ` set ys = {} \<and> source_same s0 s' rhs ys"
proof -
  from assms(4) obtain zs where zs: "dll s' this (xs0 @ zs)" "map snd zs = map snd ys"
    "fst ` set zs \<inter> dom (nodes s0) = {}" "frame s0 s' this xs0"
    by (auto simp: copied_def)
  note live = dll_facts(2) [OF assms(1)]
  have dj: "fst ` set zs \<inter> fst ` set ys = {}"
  proof (rule ccontr)
    assume "fst ` set zs \<inter> fst ` set ys \<noteq> {}"
    then obtain a where a: "a \<in> fst ` set zs" "a \<in> fst ` set ys" by blast
    from live [OF a(2)] have "a \<in> dom (nodes s0)" by (simp add: domIff)
    with a(1) zs(3) show False by blast
  qed
  have d: "dll s' rhs ys"
    using zs(4) assms(1) by (rule frame_dll) (use assms(2,3) in auto)
  have l: "lists s' rhs = lists s0 rhs" using zs(4) assms(2) by (simp add: frame_def)
  have n: "nodes s' a = nodes s0 a" if "a \<in> fst ` set ys" for a
  proof -
    have "a \<notin> fst ` set xs0" using that assms(3) by auto
    with live [OF that] zs(4) show ?thesis by (simp add: frame_def)
  qed
  then have "map (nodes s') (map fst ys) = map (nodes s0) (map fst ys)" by simp
  with d l have "source_same s0 s' rhs ys" by (simp add: source_same_def)
  with zs(1,2) dj show ?thesis by blast
qed

lemma init_list_facts:
  assumes "dll s rhs ys" "this \<noteq> rhs"
  shows "dll (init_list this s) this []" "dll (init_list this s) rhs ys"
    "lists (init_list this s) rhs = lists s rhs" "nodes (init_list this s) = nodes s"
    "room (init_list this s) n = room s n"
  using assms by (simp_all add: dll_def init_list_def room_def cells_def)

lemma list_copy_eq:
  assumes "dll s rhs ys" "this \<noteq> rhs"
  shows "list_copy this rhs s = copy_from this (first ys 0) (init_list this s)"
proof -
  have "pHead (lists (init_list this s) rhs) = first ys 0"
    using assms by (simp add: init_list_def dll_def)
  then show ?thesis
    by (simp add: list_copy_def Let_def copy_from.simps [of this 0 "init_list this s"])
qed

lemma assign_copy_eq:
  assumes "dll s this xs" "dll s rhs ys" "this \<noteq> rhs" "fst ` set xs \<inter> fst ` set ys = {}"
  shows "\<exists>s0. assign_copy this rhs s = copy_from this (first ys 0) s0 \<and> dll s0 this [] \<and>
           dll s0 rhs ys \<and> source_same s s0 rhs ys \<and> (\<forall>n. room s n \<longrightarrow> room s0 n)"
proof -
  from clear_spec [OF assms(1)] obtain s0 where s0: "clear this s = Inr s0" "dll s0 this []"
    "nodes s0 = (\<lambda>a. if a \<in> fst ` set xs then None else nodes s a)"
    "frame s s0 this xs" "next_free s0 = next_free s" by blast
  have d: "dll s0 rhs ys"
    using s0(4) assms(2) by (rule frame_dll) (use assms(3,4) in auto)
  have l: "lists s0 rhs = lists s rhs" using s0(4) assms(3) by (simp add: frame_def)
  have "nodes s0 a = nodes s a" if "a \<in> fst ` set ys" for a
    using that assms(4) s0(3) by auto
  then have "map (nodes s0) (map fst ys) = map (nodes s) (map fst ys)" by simp
  with d l have ss: "source_same s s0 rhs ys" by (simp add: source_same_def)
  have "pHead (lists s0 rhs) = first ys 0" using d by (simp add: dll_def)
  then have e: "assign_copy this rhs s = copy_from this (first ys 0) s0"
    using assms(3) s0(1) by (simp add: assign_copy_def)
  have r: "room s0 n" if "room s n" for n
  proof -
    have "objs s0 = objs s" using s0(4) by (simp add: frame_def)
    moreover have "cells s0 n = cells s n" by (simp add: cells_def s0(5))
    moreover have "nodes s0 a = None" if "nodes s a = None" for a using that s0(3) by simp
    ultimately show ?thesis using \<open>room s n\<close> by (simp add: room_def list_all_iff)
  qed
  from e s0(2) d ss r show ?thesis by blast
qed

lemma source_same_trans:
  "source_same s s0 rhs ys \<Longrightarrow> source_same s0 s' rhs ys \<Longrightarrow> source_same s s' rhs ys"
  by (simp add: source_same_def)

lemma deep_copyI:
  assumes "dll s' this zs" "map snd zs = map snd ys" "fst ` set zs \<inter> fst ` set ys = {}"
    "dll s' rhs ys" "this \<noteq> rhs"
  shows "deep_copy s' this rhs ys"
  unfolding deep_copy_def
proof (intro exI [of _ zs] conjI allI impI)
  show "dll s' this zs" "map snd zs = map snd ys" "fst ` set zs \<inter> fst ` set ys = {}"
    "dll s' rhs ys" by fact+
next
  fix ops s'' assume "run this ops s' = Inr s''"
  with assms show "dll s'' rhs ys" by (intro run_others [of s' this zs rhs ys ops s'']) auto
next
  fix ops s'' assume "run rhs ops s' = Inr s''"
  with assms show "dll s'' this zs" by (intro run_others [of s' rhs ys this zs ops s'']) auto
qed

lemma copy_from_deep:
  assumes "dll s0 this []" "dll s0 rhs ys" "this \<noteq> rhs"
  shows "case copy_from this (first ys 0) s0 of
           Inl e \<Rightarrow> e = BadAlloc
         | Inr s' \<Rightarrow> deep_copy s' this rhs ys \<and> source_same s0 s' rhs ys"
proof -
  have sg: "seg (nodes s0) 0 ys 0" using assms(2) by (simp add: dll_def)
  have dj: "fst ` set [] \<inter> fst ` set ys = {}" by simp
  note spec = copy_from_spec [OF assms(1) sg dj]
  show ?thesis
  proof (cases "copy_from this (first ys 0) s0")
    case (Inl e)
    with spec show ?thesis by simp
  next
    case (Inr s')
    with spec have "copied s0 s' this [] ys" by simp
    from copied_source [OF assms(2,3) dj this]
    obtain zs where zs: "dll s' this zs" "map snd zs = map snd ys"
      "fst ` set zs \<inter> fst ` set ys = {}" "source_same s0 s' rhs ys" by auto
    from zs(4) have "dll s' rhs ys" by (simp add: source_same_def)
    from deep_copyI [OF zs(1-3) this assms(3)] zs(4) Inr show ?thesis by simp
  qed
qed

lemmas copy_defs = list_copy_def assign_copy_def clear_def clear_loop.simps init_list_def
  copy_from.simps push_back_def new_Node_def delete_Node_def upd_defs


text \<open>
  Claim C9. Let \<open>rhs\<close> be a well-formed list with the chain \<open>ys\<close> and \<open>this\<close> another
  list object. Copy construction of \<open>this\<close> from \<open>rhs\<close> either fails in the allocator
  or ends with \<open>this\<close> holding the values of \<open>ys\<close>, as many and in the same order, in
  cells none of which is a cell of \<open>rhs\<close>, so that mutating either list afterwards
  leaves the other as it is; and it does end so when the allocator has a free cell for
  every element. The same holds of copy assignment to a well-formed \<open>this\<close> whose
  chain shares no cell with \<open>rhs\<close>. Assigning a list to itself returns the store
  unchanged.
\<close>

theorem copy_is_deep:
  assumes "dll s rhs ys" "this \<noteq> rhs"
  shows "(case list_copy this rhs s of
            Inl e \<Rightarrow> e = BadAlloc | Inr s' \<Rightarrow> deep_copy s' this rhs ys) \<and>
         (room s (length ys) \<longrightarrow> (\<exists>s'. list_copy this rhs s = Inr s')) \<and>
         (\<forall>xs. dll s this xs \<longrightarrow> fst ` set xs \<inter> fst ` set ys = {} \<longrightarrow>
            (case assign_copy this rhs s of
               Inl e \<Rightarrow> e = BadAlloc | Inr s' \<Rightarrow> deep_copy s' this rhs ys) \<and>
            (room s (length ys) \<longrightarrow> (\<exists>s'. assign_copy this rhs s = Inr s'))) \<and>
         assign_copy rhs rhs s = Inr s"
proof (intro conjI allI impI)
  note i = init_list_facts [OF assms]
  show "case list_copy this rhs s of
          Inl e \<Rightarrow> e = BadAlloc | Inr s' \<Rightarrow> deep_copy s' this rhs ys"
    using copy_from_deep [OF i(1,2) assms(2)]
    by (simp add: list_copy_eq [OF assms] split: sum.splits)
  show "\<exists>s'. list_copy this rhs s = Inr s'" if "room s (length ys)"
  proof -
    have "seg (nodes (init_list this s)) 0 ys 0" using i(2) by (simp add: dll_def)
    from copy_from_returns [OF i(1) this] that i(5) show ?thesis
      by (simp add: list_copy_eq [OF assms])
  qed
  show "assign_copy rhs rhs s = Inr s" by (simp add: assign_copy_def)
next
  fix xs
  assume xs: "dll s this xs" "fst ` set xs \<inter> fst ` set ys = {}"
  from assign_copy_eq [OF xs(1) assms xs(2)] obtain s0 where
    s0: "assign_copy this rhs s = copy_from this (first ys 0) s0" "dll s0 this []"
    "dll s0 rhs ys" "\<forall>n. room s n \<longrightarrow> room s0 n" by blast
  show "case assign_copy this rhs s of
          Inl e \<Rightarrow> e = BadAlloc | Inr s' \<Rightarrow> deep_copy s' this rhs ys"
    using copy_from_deep [OF s0(2,3) assms(2)] by (simp add: s0(1) split: sum.splits)
  show "\<exists>s'. assign_copy this rhs s = Inr s'" if "room s (length ys)"
  proof -
    have "seg (nodes s0) 0 ys 0" using s0(3) by (simp add: dll_def)
    from copy_from_returns [OF s0(2) this] that s0(4) show ?thesis by (simp add: s0(1))
  qed
qed

theorem copy_is_deep_witness:
  "dll s_123 0 [(1, 10), (2, 20), (3, 30)] \<and> (1::nat) \<noteq> 0 \<and> room s_123 3 \<and>
   (\<exists>s'. list_copy 1 0 s_123 = Inr s' \<and> deep_copy s' 1 0 [(1, 10), (2, 20), (3, 30)] \<and>
         dll s' 1 [(4, 10), (5, 20), (6, 30)]) \<and>
   dll s_pair 0 [(1, 10), (2, 20), (3, 30)] \<and> dll s_pair 1 [(4, 40)] \<and>
   fst ` set [(4::ptr, 40::nat)] \<inter> fst ` set [(1::ptr, 10::nat), (2, 20), (3, 30)] = {} \<and>
   room s_pair 3 \<and>
   (\<exists>s'. assign_copy 1 0 s_pair = Inr s' \<and> deep_copy s' 1 0 [(1, 10), (2, 20), (3, 30)] \<and>
         dll s' 1 [(5, 10), (6, 20), (7, 30)] \<and> nodes s' 4 = None) \<and>
   assign_copy 0 0 s_123 = Inr s_123"
proof -
  have ne: "(1::nat) \<noteq> 0" by simp
  have dj: "fst ` set [(4::ptr, 40::nat)] \<inter> fst ` set [(1::ptr, 10::nat), (2, 20), (3, 30)] = {}"
    by simp
  note a = copy_is_deep [OF s_123_dll ne]
  note b = copy_is_deep [OF s_pair_dll(1) ne]
  have e1: "\<exists>s'. list_copy 1 0 s_123 = Inr s' \<and> dll s' 1 [(4, 10), (5, 20), (6, 30)]"
    by (simp add: copy_defs s_123_def dll_def)
  then obtain s1 where s1: "list_copy 1 0 s_123 = Inr s1" "dll s1 1 [(4, 10), (5, 20), (6, 30)]"
    by blast
  from a s1(1) have d1: "deep_copy s1 1 0 [(1, 10), (2, 20), (3, 30)]" by simp
  have e2: "\<exists>s'. assign_copy 1 0 s_pair = Inr s' \<and> dll s' 1 [(5, 10), (6, 20), (7, 30)] \<and>
      nodes s' 4 = None"
    by (simp add: copy_defs s_pair_def dll_def)
  then obtain s2 where s2: "assign_copy 1 0 s_pair = Inr s2"
    "dll s2 1 [(5, 10), (6, 20), (7, 30)]" "nodes s2 4 = None" by blast
  from b [THEN conjunct2, THEN conjunct2, THEN conjunct1, rule_format, OF s_pair_dll(2) dj] s2(1)
  have d2: "deep_copy s2 1 0 [(1, 10), (2, 20), (3, 30)]" by simp
  from a have sa: "assign_copy 0 0 s_123 = Inr s_123" by blast
  show ?thesis
    using s_123_dll ne s_123_room s1 d1 s_pair_dll dj s_pair_room s2 d2 sa by blast
qed

text \<open>
  Claim C10. Under the same conditions, whenever copy construction or copy assignment
  returns, the source is what it was: the list object \<open>rhs\<close> (head, tail and count) is
  unchanged, every node of its chain is unchanged, and so it still is the chain \<open>ys\<close>
  with the same elements. Self-assignment returns the store it was given.
\<close>

theorem copy_leaves_source:
  assumes "dll s rhs ys" "this \<noteq> rhs"
  shows "(\<forall>s'. list_copy this rhs s = Inr s' \<longrightarrow> source_same s s' rhs ys) \<and>
         (\<forall>xs s'. dll s this xs \<longrightarrow> fst ` set xs \<inter> fst ` set ys = {} \<longrightarrow>
            assign_copy this rhs s = Inr s' \<longrightarrow> source_same s s' rhs ys) \<and>
         (\<forall>s'. assign_copy rhs rhs s = Inr s' \<longrightarrow> s' = s)"
proof (intro conjI allI impI)
  fix s' assume c: "list_copy this rhs s = Inr s'"
  note i = init_list_facts [OF assms]
  from copy_from_deep [OF i(1,2) assms(2)] c
  have "source_same (init_list this s) s' rhs ys" by (simp add: list_copy_eq [OF assms])
  then show "source_same s s' rhs ys" using i(3,4) by (simp add: source_same_def)
next
  fix xs s'
  assume xs: "dll s this xs" "fst ` set xs \<inter> fst ` set ys = {}"
    and c: "assign_copy this rhs s = Inr s'"
  from assign_copy_eq [OF xs(1) assms xs(2)] obtain s0 where
    s0: "assign_copy this rhs s = copy_from this (first ys 0) s0" "dll s0 this []"
    "dll s0 rhs ys" "source_same s s0 rhs ys" by blast
  from copy_from_deep [OF s0(2,3) assms(2)] c s0(1) have "source_same s0 s' rhs ys" by simp
  with s0(4) show "source_same s s' rhs ys" by (rule source_same_trans)
next
  fix s' assume "assign_copy rhs rhs s = Inr s'"
  then show "s' = s" by (simp add: assign_copy_def)
qed

theorem copy_leaves_source_witness:
  "dll s_123 0 [(1, 10), (2, 20), (3, 30)] \<and> (1::nat) \<noteq> 0 \<and>
   (\<exists>s'. list_copy 1 0 s_123 = Inr s' \<and> source_same s_123 s' 0 [(1, 10), (2, 20), (3, 30)]) \<and>
   dll s_pair 0 [(1, 10), (2, 20), (3, 30)] \<and> dll s_pair 1 [(4, 40)] \<and>
   fst ` set [(4::ptr, 40::nat)] \<inter> fst ` set [(1::ptr, 10::nat), (2, 20), (3, 30)] = {} \<and>
   (\<exists>s'. assign_copy 1 0 s_pair = Inr s' \<and> source_same s_pair s' 0 [(1, 10), (2, 20), (3, 30)]) \<and>
   assign_copy 0 0 s_123 = Inr s_123"
proof -
  have ne: "(1::nat) \<noteq> 0" by simp
  have dj: "fst ` set [(4::ptr, 40::nat)] \<inter> fst ` set [(1::ptr, 10::nat), (2, 20), (3, 30)] = {}"
    by simp
  note a = copy_leaves_source [OF s_123_dll ne]
  note b = copy_leaves_source [OF s_pair_dll(1) ne]
  have "\<exists>s'. list_copy 1 0 s_123 = Inr s'"
    by (simp add: copy_defs s_123_def)
  then obtain s1 where s1: "list_copy 1 0 s_123 = Inr s1" by blast
  from a s1 have d1: "source_same s_123 s1 0 [(1, 10), (2, 20), (3, 30)]" by blast
  have "\<exists>s'. assign_copy 1 0 s_pair = Inr s'"
    by (simp add: copy_defs s_pair_def)
  then obtain s2 where s2: "assign_copy 1 0 s_pair = Inr s2" by blast
  from b [THEN conjunct2, THEN conjunct1, rule_format, OF s_pair_dll(2) dj s2]
  have d2: "source_same s_pair s2 0 [(1, 10), (2, 20), (3, 30)]" .
  have sa: "assign_copy 0 0 s_123 = Inr s_123" by (simp add: assign_copy_def)
  show ?thesis using s_123_dll ne s1 d1 s_pair_dll dj s2 d2 sa by blast
qed


section \<open>Further properties of the operations\<close>

lemma count_eq_inc:
  fixes n n' :: size_t
  assumes "unat n' = Suc (unat n)"
  shows "n' = n + 1"
proof -
  have "unat n' < 2 ^ LENGTH(64)" by (rule unsigned_less)
  then have "unat n + unat (1 :: size_t) < 2 ^ LENGTH(64)" using assms by simp
  then have "unat (n + 1) = unat n + unat (1 :: size_t)" by (simp only: unat_add_lem)
  then have "unat n' = unat (n + 1)" using assms by simp
  then show ?thesis by (simp only: word_unat_eq_iff)
qed

lemma size_of_eq: "dll s this xs \<Longrightarrow> dll s' this ys \<Longrightarrow> length xs = length ys \<Longrightarrow>
    size_of this s' = size_of this s"
  by (simp add: dll_def size_of_def word_unat_eq_iff)

text \<open>
  Property X1. The default constructor gives the empty list; the constructors from an
  initializer list and from a range, when they return, give a well-formed list of the
  given elements in order; the two fill constructors, when they return, give a
  well-formed list of \<open>num\<close> copies of the value (of the default value).
\<close>

theorem constructors_build_lists:
  "dll (list_default this s) this [] \<and>
   (\<forall>s'. list_il this il s = Inr s' \<longrightarrow> (\<exists>zs. dll s' this zs \<and> map snd zs = il)) \<and>
   (\<forall>s'. list_range this il s = Inr s' \<longrightarrow> (\<exists>zs. dll s' this zs \<and> map snd zs = il)) \<and>
   (\<forall>s'. list_fill this num t s = Inr s' \<longrightarrow>
      (\<exists>zs. dll s' this zs \<and> map snd zs = replicate (unat num) t)) \<and>
   (\<forall>s'. list_fill_default d this num s = Inr s' \<longrightarrow>
      (\<exists>zs. dll s' this zs \<and> map snd zs = replicate (unat num) d))"
proof (intro conjI allI impI)
  show "dll (list_default this s) this []" by (rule list_default_dll)
  show "\<exists>zs. dll s' this zs \<and> map snd zs = il" if "list_il this il s = Inr s'" for s'
    using that by (rule list_il_dll)
  show "\<exists>zs. dll s' this zs \<and> map snd zs = il" if "list_range this il s = Inr s'" for s'
    using that by (rule list_range_dll)
  show "\<exists>zs. dll s' this zs \<and> map snd zs = replicate (unat num) t"
    if "list_fill this num t s = Inr s'" for s'
    using that by (rule list_fill_dll)
  show "\<exists>zs. dll s' this zs \<and> map snd zs = replicate (unat num) d"
    if "list_fill_default d this num s = Inr s'" for s'
    using that by (rule list_fill_default_dll)
qed

theorem constructors_build_lists_witness:
  "(\<exists>s'. list_il 0 [1, 2, 3] s_empty = Inr s' \<and> dll s' 0 [(1, 1), (2, 2), (3, 3)] \<and>
         (\<exists>zs. dll s' 0 zs \<and> map snd zs = [1, 2, 3])) \<and>
   (\<exists>s'. list_fill 0 3 7 s_empty = Inr s' \<and> dll s' 0 [(1, 7), (2, 7), (3, 7)] \<and>
         (\<exists>zs. dll s' 0 zs \<and> map snd zs = replicate (unat (3 :: size_t)) 7)) \<and>
   (\<exists>s'. list_fill_default 0 0 2 s_empty = Inr s' \<and> dll s' 0 [(1, 0), (2, 0)] \<and>
         (\<exists>zs. dll s' 0 zs \<and> map snd zs = replicate (unat (2 :: size_t)) 0))"
proof -
  have "\<exists>s'. list_il 0 [1, 2, 3] s_empty = Inr s' \<and> dll s' 0 [(1, 1), (2, 2), (3, 3)]"
    by (simp add: list_il_def init_list_def push_back_def new_Node_def upd_defs s_empty_def
        dll_def)
  then obtain s1 where s1: "list_il 0 [1, 2, 3] s_empty = Inr s1"
    "dll s1 0 [(1, 1), (2, 2), (3, 3)]" by blast
  have two: "fill_loop 2 = fill_loop (Suc (Suc 0))" by (simp add: numeral_2_eq_2)
  have "\<exists>s'. list_fill 0 3 7 s_empty = Inr s' \<and> dll s' 0 [(1, 7), (2, 7), (3, 7)]"
    by (simp add: list_fill_def init_list_def new_Node_def upd_defs s_empty_def dll_def two)
  then obtain s2 where s2: "list_fill 0 3 7 s_empty = Inr s2"
    "dll s2 0 [(1, 7), (2, 7), (3, 7)]" by blast
  have "\<exists>s'. list_fill_default 0 0 2 s_empty = Inr s' \<and> dll s' 0 [(1, 0), (2, 0)]"
    by (simp add: list_fill_default_def init_list_def new_Node_def upd_defs s_empty_def dll_def
        get_node_def)
  then obtain s3 where s3: "list_fill_default 0 0 2 s_empty = Inr s3"
    "dll s3 0 [(1, 0), (2, 0)]" by blast
  note c = constructors_build_lists [where this = 0 and s = s_empty]
  from c [where il = "[1, 2, 3]", THEN conjunct2, THEN conjunct1, rule_format, OF s1(1)]
  have 1: "\<exists>zs. dll s1 0 zs \<and> map snd zs = [1, 2, 3]" .
  from c [where num = 3 and t = 7, THEN conjunct2, THEN conjunct2, THEN conjunct2,
      THEN conjunct1, rule_format, OF s2(1)]
  have 2: "\<exists>zs. dll s2 0 zs \<and> map snd zs = replicate (unat (3 :: size_t)) 7" .
  from c [where num = 2 and d = 0, THEN conjunct2, THEN conjunct2, THEN conjunct2,
      THEN conjunct2, rule_format, OF s3(1)]
  have 3: "\<exists>zs. dll s3 0 zs \<and> map snd zs = replicate (unat (2 :: size_t)) 0" .
  show ?thesis
  proof (intro conjI)
    show "\<exists>s'. list_il 0 [1, 2, 3] s_empty = Inr s' \<and> dll s' 0 [(1, 1), (2, 2), (3, 3)] \<and>
         (\<exists>zs. dll s' 0 zs \<and> map snd zs = [1, 2, 3])"
      using s1 1 by (intro exI [of _ s1]) simp
    show "\<exists>s'. list_fill 0 3 7 s_empty = Inr s' \<and> dll s' 0 [(1, 7), (2, 7), (3, 7)] \<and>
         (\<exists>zs. dll s' 0 zs \<and> map snd zs = replicate (unat (3 :: size_t)) 7)"
      using s2 2 by (intro exI [of _ s2]) simp
    show "\<exists>s'. list_fill_default 0 0 2 s_empty = Inr s' \<and> dll s' 0 [(1, 0), (2, 0)] \<and>
         (\<exists>zs. dll s' 0 zs \<and> map snd zs = replicate (unat (2 :: size_t)) 0)"
      using s3 3 by (intro exI [of _ s3]) simp
  qed
qed

text \<open>
  Property X2. On a well-formed list with a free cell, the copying \<^verbatim>\<open>insert\<close> at the
  position of the first node of \<open>zs\<close> (past-the-end when \<open>zs\<close> is empty) returns the
  new node, which sits between \<open>ys\<close> and \<open>zs\<close>, and the size grows by one.
\<close>

theorem insert_copy_before_position:
  assumes "dll s this (ys @ zs)" "can_alloc s"
  shows "\<exists>s'. insert_copy this (first zs end_it) v s = Inr (next_free s, s') \<and>
           dll s' this (ys @ (next_free s, v) # zs) \<and>
           size_of this s' = size_of this s + 1"
proof -
  from insert_copy_spec [OF assms, of v] obtain s' where
    s': "insert_copy this (first zs 0) v s = Inr (next_free s, s')"
    "dll s' this (ys @ (next_free s, v) # zs)" by blast
  have "unat (size_of this s') = Suc (unat (size_of this s))"
    using assms(1) s'(2) by (simp add: dll_def size_of_def)
  then have "size_of this s' = size_of this s + 1" by (rule count_eq_inc)
  with s' show ?thesis by (auto simp: end_it_def)
qed

theorem insert_copy_before_position_witness:
  "dll s_123 0 ([(1, 10)] @ [(2, 20), (3, 30)]) \<and> can_alloc s_123 \<and>
   (\<exists>s'. insert_copy 0 2 9 s_123 = Inr (4, s') \<and>
         dll s' 0 [(1, 10), (4, 9), (2, 20), (3, 30)] \<and> size_of 0 s' = 4)"
proof -
  have d: "dll s_123 0 ([(1, 10)] @ [(2, 20), (3, 30)])" using s_123_dll by simp
  have ca: "can_alloc s_123" "next_free s_123 = 4" "size_of 0 s_123 + 1 = 4"
    by (simp_all add: can_alloc_def s_123_def size_of_def)
  from insert_copy_before_position [OF d ca(1), of 9] d ca show ?thesis
    by (simp add: end_it_def)
qed

text \<open>
  Property X3. On a well-formed list: with a free cell, \<^verbatim>\<open>push_back\<close> appends and
  \<^verbatim>\<open>push_front\<close> prepends a node holding the value; \<^verbatim>\<open>pop_back\<close> and \<^verbatim>\<open>pop_front\<close>
  of a non-empty list remove the last and the first node and release its cell.
\<close>

theorem push_pop_at_ends:
  assumes "dll s this xs"
  shows "(can_alloc s \<longrightarrow>
            (\<exists>s'. push_back this v s = Inr s' \<and> dll s' this (xs @ [(next_free s, v)])) \<and>
            (\<exists>s'. push_front this v s = Inr s' \<and> dll s' this ((next_free s, v) # xs))) \<and>
         (\<forall>ys a w. xs = ys @ [(a, w)] \<longrightarrow>
            (\<exists>s'. pop_back this s = Inr s' \<and> dll s' this ys \<and> nodes s' a = None)) \<and>
         (\<forall>a w ys. xs = (a, w) # ys \<longrightarrow>
            (\<exists>s'. pop_front this s = Inr s' \<and> dll s' this ys \<and> nodes s' a = None))"
proof (intro conjI allI impI)
  assume ca: "can_alloc s"
  from push_back_spec [OF assms ca, of v]
  show "\<exists>s'. push_back this v s = Inr s' \<and> dll s' this (xs @ [(next_free s, v)])" by blast
  from push_front_spec [OF assms ca, of v]
  show "\<exists>s'. push_front this v s = Inr s' \<and> dll s' this ((next_free s, v) # xs)" by blast
next
  fix ys a w assume "xs = ys @ [(a, w)]"
  with pop_back_spec [of s this ys a w] assms
  show "\<exists>s'. pop_back this s = Inr s' \<and> dll s' this ys \<and> nodes s' a = None" by blast
next
  fix a w ys assume "xs = (a, w) # ys"
  with pop_front_spec [of s this a w ys] assms
  show "\<exists>s'. pop_front this s = Inr s' \<and> dll s' this ys \<and> nodes s' a = None" by blast
qed

theorem push_pop_at_ends_witness:
  "dll s_123 0 [(1, 10), (2, 20), (3, 30)] \<and> can_alloc s_123 \<and>
   (\<exists>s'. push_back 0 7 s_123 = Inr s' \<and> dll s' 0 [(1, 10), (2, 20), (3, 30), (4, 7)]) \<and>
   (\<exists>s'. push_front 0 7 s_123 = Inr s' \<and> dll s' 0 [(4, 7), (1, 10), (2, 20), (3, 30)]) \<and>
   (\<exists>s'. pop_back 0 s_123 = Inr s' \<and> dll s' 0 [(1, 10), (2, 20)] \<and> nodes s' 3 = None) \<and>
   (\<exists>s'. pop_front 0 s_123 = Inr s' \<and> dll s' 0 [(2, 20), (3, 30)] \<and> nodes s' 1 = None)"
proof -
  have ca: "can_alloc s_123" "next_free s_123 = 4"
    by (simp_all add: can_alloc_def s_123_def)
  note p = push_pop_at_ends [OF s_123_dll]
  from p [of 7] ca
  have 1: "(\<exists>s'. push_back 0 7 s_123 = Inr s' \<and> dll s' 0 [(1, 10), (2, 20), (3, 30), (4, 7)]) \<and>
     (\<exists>s'. push_front 0 7 s_123 = Inr s' \<and> dll s' 0 [(4, 7), (1, 10), (2, 20), (3, 30)])"
    by simp
  from p [THEN conjunct2, THEN conjunct1, rule_format, of "[(1, 10), (2, 20)]" 3 30]
  have 2: "\<exists>s'. pop_back 0 s_123 = Inr s' \<and> dll s' 0 [(1, 10), (2, 20)] \<and> nodes s' 3 = None"
    by simp
  from p [THEN conjunct2, THEN conjunct2, rule_format, of 1 10 "[(2, 20), (3, 30)]"]
  have 3: "\<exists>s'. pop_front 0 s_123 = Inr s' \<and> dll s' 0 [(2, 20), (3, 30)] \<and> nodes s' 1 = None"
    by simp
  from 1 2 3 ca(1) s_123_dll show ?thesis by blast
qed

text \<open>
  Property X4. \<^verbatim>\<open>clear\<close> of a well-formed list returns, releases every cell of the
  chain and leaves the empty list with size 0.
\<close>

theorem clear_releases_all:
  assumes "dll s this xs"
  shows "\<exists>s'. clear this s = Inr s' \<and> dll s' this [] \<and> size_of this s' = 0 \<and>
           empty this s' \<and> list_all (\<lambda>a. nodes s' a = None) (map fst xs)"
proof -
  from clear_spec [OF assms] obtain s' where s': "clear this s = Inr s'" "dll s' this []"
    "nodes s' = (\<lambda>a. if a \<in> fst ` set xs then None else nodes s a)" by blast
  from s'(2) have "size_of this s' = 0" "empty this s'"
    by (simp_all add: dll_def size_of_def empty_def unat_eq_zero)
  moreover have "list_all (\<lambda>a. nodes s' a = None) (map fst xs)"
    by (simp add: s'(3) list_all_iff)
  ultimately show ?thesis using s'(1,2) by blast
qed

theorem clear_releases_all_witness:
  "dll s_123 0 [(1, 10), (2, 20), (3, 30)] \<and>
   (\<exists>s'. clear 0 s_123 = Inr s' \<and> dll s' 0 [] \<and> size_of 0 s' = 0 \<and> empty 0 s' \<and>
         nodes s' 1 = None \<and> nodes s' 2 = None \<and> nodes s' 3 = None)"
  using clear_releases_all [OF s_123_dll] s_123_dll by simp

text \<open>
  Property X5. On a well-formed list with a free cell, inserting at a position and
  erasing the returned iterator gives back the chain as it was, with the same size, and
  \<^verbatim>\<open>erase\<close> returns the position the insertion was made at.
\<close>

theorem insert_then_erase_round_trip:
  assumes "dll s this (ys @ zs)" "can_alloc s"
  shows "\<exists>it s1 s2. insert_copy this (first zs end_it) v s = Inr (it, s1) \<and>
           erase this it s1 = Inr (first zs end_it, s2) \<and> dll s2 this (ys @ zs) \<and>
           size_of this s2 = size_of this s"
proof -
  from insert_copy_spec [OF assms, of v] obtain s1 where
    s1: "insert_copy this (first zs 0) v s = Inr (next_free s, s1)"
    "dll s1 this (ys @ (next_free s, v) # zs)" by blast
  from erase_spec [OF s1(2)] obtain s2 where
    s2: "erase this (next_free s) s1 = Inr (first zs 0, s2)" "dll s2 this (ys @ zs)" by blast
  from size_of_eq [OF assms(1) s2(2)] have "size_of this s2 = size_of this s" by simp
  with s1 s2 show ?thesis by (auto simp: end_it_def)
qed

theorem insert_then_erase_round_trip_witness:
  "dll s_123 0 ([(1, 10)] @ [(2, 20), (3, 30)]) \<and> can_alloc s_123 \<and>
   (\<exists>it s1 s2. insert_copy 0 2 9 s_123 = Inr (it, s1) \<and> erase 0 it s1 = Inr (2, s2) \<and>
       dll s2 0 [(1, 10), (2, 20), (3, 30)] \<and> size_of 0 s2 = 3)"
proof -
  have d: "dll s_123 0 ([(1, 10)] @ [(2, 20), (3, 30)])" using s_123_dll by simp
  have ca: "can_alloc s_123" "size_of 0 s_123 = 3"
    by (simp_all add: can_alloc_def s_123_def size_of_def)
  from insert_then_erase_round_trip [OF d ca(1), of 9] d ca show ?thesis
    by (simp add: end_it_def)
qed

end
